theory Spec2Isabelle
  imports Complex_Main "HOL-Library.Log_Nat"
begin

section \<open>Python numbers\<close>

text \<open>
  The script \<^verbatim>\<open>scripts/generate-file-icons.py\<close> computes every dimension as
  \<^verbatim>\<open>int(size * c)\<close> for a decimal literal \<^verbatim>\<open>c\<close>: a binary64 product, truncated
  toward zero. Python integers are unbounded and are modelled by \<open>int\<close>. A Python float
  is modelled by the rational number it denotes; every operation computes the exact
  result and rounds it to 53 significant bits, to nearest, ties to even (\<open>fl\<close>). The
  exponent of \<open>fl\<close> is unbounded: a value of magnitude \<open>2 ^ 1024\<close> or more stands for an
  infinity, which \<^verbatim>\<open>int()\<close> and the conversion from \<^verbatim>\<open>int\<close> reject with OverflowError.
  Subnormal numbers and NaN are outside the model.
\<close>

datatype error = OverflowError | KeyError string | IndexError

definition bindr :: "error + 'a \<Rightarrow> ('a \<Rightarrow> error + 'b) \<Rightarrow> error + 'b" where
  "bindr r k = (case r of Inl e \<Rightarrow> Inl e | Inr v \<Rightarrow> k v)"

definition round_half_even :: "rat \<Rightarrow> int" where
  "round_half_even x =
     (let f = \<lfloor>x\<rfloor>; d = x - of_int f
      in if d < 1 / 2 then f
         else if 1 / 2 < d then f + 1
         else if even f then f else f + 1)"

definition ilog2 :: "rat \<Rightarrow> int" where
  \<comment> \<open>\<open>\<lfloor>log\<^sub>2 x\<rfloor>\<close> of a positive rational, from the bit lengths of its numerator and denominator\<close>
  "ilog2 x =
     (let (p, q) = quotient_of x; d = bitlen p - bitlen q
      in if power_int 2 d \<le> x then d else d - 1)"

definition fl :: "rat \<Rightarrow> rat" where
  \<comment> \<open>round to the nearest number with a 53-bit significand, ties to even\<close>
  "fl x =
     (if x = 0 then 0
      else let q = power_int 2 (ilog2 \<bar>x\<bar> - 52)
           in of_int (round_half_even (x / q)) * q)"

definition dec :: "int \<Rightarrow> int \<Rightarrow> rat" where
  \<comment> \<open>the float denoted by a decimal literal: \<open>dec 8 100\<close> is \<^verbatim>\<open>0.08\<close>, \<open>dec 6 10\<close> is \<^verbatim>\<open>0.6\<close>\<close>
  "dec m d = fl (of_int m / of_int d)"

definition fmul :: "rat \<Rightarrow> rat \<Rightarrow> rat" where
  "fmul a b = fl (a * b)"

definition fadd :: "rat \<Rightarrow> rat \<Rightarrow> rat" where
  "fadd a b = fl (a + b)"

definition fsub :: "rat \<Rightarrow> rat \<Rightarrow> rat" where
  "fsub a b = fl (a - b)"

definition fhalf :: "rat \<Rightarrow> rat" where
  \<comment> \<open>\<^verbatim>\<open>x / 2\<close> on a float\<close>
  "fhalf a = fl (a / 2)"

definition is_inf :: "rat \<Rightarrow> bool" where
  \<comment> \<open>the binary exponent is beyond the largest one of binary64: \<open>2 ^ 1024 \<le> \<bar>x\<bar>\<close>\<close>
  "is_inf x \<longleftrightarrow> x \<noteq> 0 \<and> 1024 \<le> ilog2 \<bar>x\<bar>"

definition to_float :: "int \<Rightarrow> error + rat" where
  \<comment> \<open>the implicit conversion of an \<^verbatim>\<open>int\<close> operand in mixed arithmetic\<close>
  "to_float n = (let x = fl (of_int n) in if is_inf x then Inl OverflowError else Inr x)"

definition trunc :: "rat \<Rightarrow> int" where
  \<comment> \<open>truncation toward zero\<close>
  "trunc x = (if 0 \<le> x then \<lfloor>x\<rfloor> else \<lceil>x\<rceil>)"

definition py_int :: "rat \<Rightarrow> error + int" where
  \<comment> \<open>\<^verbatim>\<open>int(x)\<close>\<close>
  "py_int x = (if is_inf x then Inl OverflowError else Inr (trunc x))"

definition scaled :: "int \<Rightarrow> rat \<Rightarrow> error + int" where
  \<comment> \<open>\<^verbatim>\<open>int(n * c)\<close> for an integer \<open>n\<close> and a float \<open>c\<close>\<close>
  "scaled n c = bindr (to_float n) (\<lambda>x. py_int (fmul x c))"

definition int_truediv2 :: "int \<Rightarrow> error + rat" where
  \<comment> \<open>\<^verbatim>\<open>n / 2\<close> on an \<^verbatim>\<open>int\<close>: the correctly rounded quotient\<close>
  "int_truediv2 n = (let x = fl (of_int n / 2) in if is_inf x then Inl OverflowError else Inr x)"

section \<open>Drawing operations\<close>

type_synonym color = "int \<times> int \<times> int"

type_synonym point = "rat \<times> rat"

type_synonym box = "rat \<times> rat \<times> rat \<times> rat"

text \<open>
  A font object is what \<^verbatim>\<open>ImageFont.truetype(name, size)\<close> or
  \<^verbatim>\<open>ImageFont.load_default()\<close> returns.
  One constructor for each method of the drawing context that the script calls, with the
  arguments the script passes (an omitted keyword argument is \<open>None\<close>). The drawing
  context itself is the list of the operations performed on it so far.
\<close>

datatype font = FreeTypeFont string int | DefaultFont

datatype draw_op =
    Polygon "point list" "color option" "color option"
  | RoundedRectangle box int "color option"
  | Rectangle box "color option" "color option" "int option"
  | Ellipse box "color option" "color option" "int option"
  | Line "point list" "color option" "int option"
  | Text point string "color option" font

definition ICO_SIZES :: "int list" where
  "ICO_SIZES = [16, 32, 48, 64, 256]"

definition COLORS :: "(string \<times> (string \<times> color) list) list" where
  "COLORS =
     [(''o2d'',
       [(''accent'', (59, 130, 246)),
        (''accent_dark'', (37, 99, 235)),
        (''label_bg'', (59, 130, 246)),
        (''label_text'', (255, 255, 255))]),
      (''dxf'',
       [(''accent'', (34, 197, 94)),
        (''accent_dark'', (22, 163, 74)),
        (''label_bg'', (34, 197, 94)),
        (''label_text'', (255, 255, 255))])]"

definition LOGO_BG :: color where "LOGO_BG = (25, 28, 50)"

definition LOGO_SQUARE :: color where "LOGO_SQUARE = (230, 57, 80)"

definition LOGO_CIRCLE :: color where "LOGO_CIRCLE = (0, 230, 118)"

definition LOGO_LINE :: color where "LOGO_LINE = (255, 255, 255)"

definition LOGO_DOT :: color where "LOGO_DOT = (230, 57, 100)"

definition getitem :: "(string \<rightharpoonup> color) \<Rightarrow> string \<Rightarrow> error + color" where
  \<comment> \<open>\<^verbatim>\<open>colors[key]\<close>\<close>
  "getitem colors k = (case colors k of None \<Rightarrow> Inl (KeyError k) | Some v \<Rightarrow> Inr v)"

text \<open>
  What the script takes from its platform: the icon directory and the path separator,
  the font files that can be opened (\<open>truetype\<close> is \<open>None\<close> where Pillow raises OSError),
  the built-in font, and the text measurement of the drawing context.
\<close>

record env =
  icons_dir :: string
  path_join :: "string \<Rightarrow> string \<Rightarrow> string"
  truetype :: "string \<Rightarrow> int \<Rightarrow> font option"
  load_default :: font
  textbbox :: "font \<Rightarrow> string \<Rightarrow> box"

section \<open>The page\<close>

text \<open>
  Each dimension that the script binds to a local variable as
  \<^verbatim>\<open>max(lo, int(size * c))\<close> is a function named after that variable.
\<close>

definition margin :: "int \<Rightarrow> error + int" where
  "margin s = bindr (scaled s (dec 8 100)) (\<lambda>v. Inr (max 1 v))"

definition fold' :: "int \<Rightarrow> rat \<Rightarrow> error + int" where
  "fold' s fold_ratio = bindr (scaled s fold_ratio) (\<lambda>v. Inr (max 2 v))"

definition shadow_offset :: "int \<Rightarrow> error + int" where
  "shadow_offset s = bindr (scaled s (dec 2 100)) (\<lambda>v. Inr (max 1 v))"

definition draw_document_page ::
  "draw_op list \<Rightarrow> int \<Rightarrow> rat \<Rightarrow>
     error + (draw_op list \<times> int \<times> int \<times> int \<times> int \<times> int)" where
  "draw_document_page draw size' fold_ratio =
     (let s = size' in
      bindr (margin s) (\<lambda>margin.
      bindr (fold' s fold_ratio) (\<lambda>fold.
      let page_left = margin;
          page_top = margin;
          page_right = s - margin - 1;
          page_bottom = s - margin - 1
      in
      bindr (if 32 \<le> s then
               bindr (shadow_offset s) (\<lambda>shadow_offset.
               let shadow_color = (180, 180, 180);
                   shadow_points =
                     [(of_int (page_left + shadow_offset), of_int (page_top + fold + shadow_offset)),
                      (of_int (page_right - fold + shadow_offset), of_int (page_top + shadow_offset)),
                      (of_int (page_right + shadow_offset), of_int (page_top + fold + shadow_offset)),
                      (of_int (page_right + shadow_offset), of_int (page_bottom + shadow_offset)),
                      (of_int (page_left + shadow_offset), of_int (page_bottom + shadow_offset))]
               in Inr (draw @ [Polygon shadow_points (Some shadow_color) None]))
             else Inr draw) (\<lambda>draw1.
      let page_points =
            [(of_int page_left, of_int page_top),
             (of_int (page_right - fold), of_int page_top),
             (of_int page_right, of_int (page_top + fold)),
             (of_int page_right, of_int page_bottom),
             (of_int page_left, of_int page_bottom)];
          draw2 = draw1 @ [Polygon page_points (Some (255, 255, 255)) (Some (200, 200, 200))];
          fold_points =
            [(of_int (page_right - fold), of_int page_top),
             (of_int page_right, of_int (page_top + fold)),
             (of_int (page_right - fold), of_int (page_top + fold))];
          draw3 = draw2 @ [Polygon fold_points (Some (230, 230, 235)) (Some (200, 200, 200))]
      in Inr (draw3, page_left, page_top, page_right, page_bottom, fold)))))"

section \<open>The logo\<close>

definition logo_radius :: "rat \<Rightarrow> error + int" where
  \<comment> \<open>\<^verbatim>\<open>radius=max(1, int(r * 0.25))\<close>\<close>
  "logo_radius r = bindr (py_int (fmul r (dec 25 100))) (\<lambda>v. Inr (max 1 v))"

definition line_w :: "rat \<Rightarrow> error + int" where
  "line_w r = bindr (py_int (fmul r (dec 12 100))) (\<lambda>v. Inr (max 1 v))"

definition diagonal_width :: "rat \<Rightarrow> error + int" where
  \<comment> \<open>\<^verbatim>\<open>width=max(1, int(r * 0.1))\<close> of the diagonal line\<close>
  "diagonal_width r = bindr (py_int (fmul r (dec 1 10))) (\<lambda>v. Inr (max 1 v))"

definition dot_r :: "rat \<Rightarrow> error + int" where
  "dot_r r = bindr (py_int (fmul r (dec 1 10))) (\<lambda>v. Inr (max 1 v))"

definition draw_app_logo :: "draw_op list \<Rightarrow> rat \<Rightarrow> rat \<Rightarrow> rat \<Rightarrow> error + draw_op list" where
  "draw_app_logo draw cx cy logo_size =
     (let r = fhalf logo_size;
          bg_margin = fmul r (dec 1 10)
      in
      bindr (logo_radius r) (\<lambda>radius.
      let draw1 = draw @
            [RoundedRectangle
               (fsub (fsub cx r) bg_margin, fsub (fsub cy r) bg_margin,
                fadd (fadd cx r) bg_margin, fadd (fadd cy r) bg_margin)
               radius (Some LOGO_BG)];
          sq_size = fmul r (dec 55 100);
          sq_x = fsub cx (fmul r (dec 45 100));
          sq_y = fsub cy (fmul r (dec 45 100))
      in
      bindr (line_w r) (\<lambda>line_w.
      let draw2 = draw1 @
            [Rectangle
               (fsub sq_x (fhalf sq_size), fsub sq_y (fhalf sq_size),
                fadd sq_x (fhalf sq_size), fadd sq_y (fhalf sq_size))
               None (Some LOGO_SQUARE) (Some line_w)];
          circ_r = fmul r (dec 35 100);
          circ_x = fadd cx (fmul r (dec 35 100));
          circ_y = fadd cy (fmul r (dec 35 100));
          draw3 = draw2 @
            [Ellipse
               (fsub circ_x circ_r, fsub circ_y circ_r,
                fadd circ_x circ_r, fadd circ_y circ_r)
               None (Some LOGO_CIRCLE) (Some line_w)];
          line_x1 = fsub cx (fmul r (dec 65 100));
          line_y1 = fadd cy (fmul r (dec 55 100));
          line_x2 = fadd cx (fmul r (dec 6 10));
          line_y2 = fsub cy (fmul r (dec 6 10))
      in
      bindr (diagonal_width r) (\<lambda>width.
      let draw4 = draw3 @
            [Line [(line_x1, line_y1), (line_x2, line_y2)] (Some LOGO_LINE) (Some width)]
      in
      bindr (dot_r r) (\<lambda>dot_r.
      bindr (to_float dot_r) (\<lambda>dot.
      Inr (draw4 @
            [Ellipse
               (fsub line_x1 dot, fsub line_y1 dot, fadd line_x1 dot, fadd line_y1 dot)
               (Some LOGO_DOT) None None,
             Ellipse
               (fsub line_x2 dot, fsub line_y2 dot, fadd line_x2 dot, fadd line_y2 dot)
               (Some LOGO_DOT) None None])))))))"

section \<open>The label\<close>

definition label_height :: "int \<Rightarrow> error + int" where
  "label_height s = bindr (scaled s (dec 18 100)) (\<lambda>v. Inr (max 4 v))"

definition label_margin :: "int \<Rightarrow> error + int" where
  "label_margin s = bindr (scaled s (dec 2 100)) (\<lambda>v. Inr (max 0 v))"

definition font_size :: "int \<Rightarrow> error + int" where
  \<comment> \<open>\<^verbatim>\<open>max(6, int(label_height * 0.8))\<close>\<close>
  "font_size lh = bindr (scaled lh (dec 8 10)) (\<lambda>v. Inr (max 6 v))"

definition resolve_font :: "env \<Rightarrow> int \<Rightarrow> font" where
  \<comment> \<open>the nested \<^verbatim>\<open>try\<close> / \<^verbatim>\<open>except (OSError, IOError)\<close> of \<^verbatim>\<open>draw_extension_label\<close>\<close>
  "resolve_font e n =
     (case truetype e ''arialbd.ttf'' n of
        Some font \<Rightarrow> font
      | None \<Rightarrow>
          (case truetype e ''arial.ttf'' n of
             Some font \<Rightarrow> font
           | None \<Rightarrow> load_default e))"

definition draw_extension_label ::
  "env \<Rightarrow> draw_op list \<Rightarrow> string \<Rightarrow> int \<Rightarrow> int \<Rightarrow> int \<Rightarrow> int \<Rightarrow> (string \<rightharpoonup> color) \<Rightarrow>
     error + draw_op list" where
  "draw_extension_label e draw text page_left page_right page_bottom size' colors =
     bindr (label_height size') (\<lambda>label_height.
     let label_top = page_bottom - label_height in
     bindr (label_margin size') (\<lambda>label_margin.
     bindr (getitem colors ''label_bg'') (\<lambda>label_bg.
     let draw1 = draw @
           [Rectangle
              (of_int (page_left + label_margin), of_int label_top,
               of_int (page_right - label_margin), of_int (page_bottom - label_margin))
              (Some label_bg) None None]
     in
     bindr (font_size label_height) (\<lambda>font_size.
     let font = resolve_font e font_size;
         (bbox0, bbox1, bbox2, bbox3) = textbbox e font text;
         tw = fsub bbox2 bbox0;
         th = fsub bbox3 bbox1
     in
     bindr (int_truediv2 (page_left + page_right)) (\<lambda>mid.
     let tx = fsub mid (fhalf tw) in
     bindr (to_float (label_height - label_margin)) (\<lambda>avail.
     bindr (to_float label_top) (\<lambda>top.
     let ty = fsub (fadd top (fhalf (fsub avail th))) bbox1 in
     bindr (getitem colors ''label_text'') (\<lambda>label_text.
     Inr (draw1 @ [Text (tx, ty) text (Some label_text) font])))))))))"

section \<open>The accent bar\<close>

definition bar_height :: "int \<Rightarrow> error + int" where
  "bar_height s = bindr (scaled s (dec 4 100)) (\<lambda>v. Inr (max 1 v))"

definition bar_margin :: "int \<Rightarrow> error + int" where
  "bar_margin s = bindr (scaled s (dec 2 100)) (\<lambda>v. Inr (max 0 v))"

definition draw_accent_bar ::
  "draw_op list \<Rightarrow> int \<Rightarrow> int \<Rightarrow> int \<Rightarrow> int \<Rightarrow> (string \<rightharpoonup> color) \<Rightarrow> error + draw_op list" where
  "draw_accent_bar draw page_left page_top fold_arg size' colors =
     bindr (bar_height size') (\<lambda>bar_height.
     bindr (bar_margin size') (\<lambda>bar_margin.
     bindr (to_float page_left) (\<lambda>left.
     bindr (to_float size') (\<lambda>sf.
     bindr (getitem colors ''accent'') (\<lambda>accent.
     Inr (draw @
           [Rectangle
              (of_int (page_left + bar_margin), of_int (page_top + bar_margin),
               fadd left (fmul sf (dec 55 100)), of_int (page_top + bar_margin + bar_height))
              (Some accent) None None]))))))"

section \<open>Assembling an icon\<close>

record image =
  img_mode :: string
  img_size :: "int \<times> int"
  img_color :: "int \<times> int \<times> int \<times> int"
  img_draw :: "draw_op list"

definition upper_char :: "char \<Rightarrow> char" where
  "upper_char c =
     (let n = of_char c :: nat
      in if of_char CHR ''a'' \<le> n \<and> n \<le> of_char CHR ''z'' then char_of (n - 32) else c)"

definition upper :: "string \<Rightarrow> string" where
  \<comment> \<open>\<^verbatim>\<open>str.upper()\<close> on ASCII text\<close>
  "upper s = map upper_char s"

definition logo_area ::
  "int \<Rightarrow> int \<Rightarrow> int \<Rightarrow> int \<Rightarrow> int \<Rightarrow> int \<Rightarrow> error + (int \<times> int \<times> rat \<times> rat \<times> rat)" where
  \<comment> \<open>the logo placement of \<^verbatim>\<open>generate_icon\<close>: \<^verbatim>\<open>logo_area_top\<close>, \<^verbatim>\<open>logo_area_bottom\<close>,
     \<^verbatim>\<open>logo_center_y\<close>, \<^verbatim>\<open>logo_center_x\<close>, \<^verbatim>\<open>logo_size\<close>\<close>
  "logo_area pl pt pr pb fold_arg size' =
     (bindr (scaled size' (dec 4 100)) (\<lambda>a.
      let logo_area_top = pt + fold_arg + max 1 a in
      bindr (scaled size' (dec 20 100)) (\<lambda>b.
      let logo_area_bottom = pb - max 4 b in
      bindr (int_truediv2 (logo_area_top + logo_area_bottom)) (\<lambda>logo_center_y.
      bindr (int_truediv2 (pl + pr)) (\<lambda>logo_center_x.
      bindr (to_float (pr - pl)) (\<lambda>w.
      bindr (to_float (logo_area_bottom - logo_area_top)) (\<lambda>h.
      let logo_size = min (fmul w (dec 55 100)) (fmul h (dec 85 100))
      in Inr (logo_area_top, logo_area_bottom, logo_center_y, logo_center_x, logo_size))))))))"

definition render_size :: "env \<Rightarrow> string \<Rightarrow> (string \<rightharpoonup> color) \<Rightarrow> int \<Rightarrow> error + image" where
  \<comment> \<open>the body of the loop over \<open>ICO_SIZES\<close> in \<^verbatim>\<open>generate_icon\<close>\<close>
  "render_size e ext colors size' =
     (let img = \<lparr>img_mode = ''RGBA'', img_size = (size', size'),
                 img_color = (0, 0, 0, 0), img_draw = []\<rparr>
      in
      bindr (draw_document_page (img_draw img) size' (dec 22 100))
        (\<lambda>(draw1, pl, pt, pr, pb, fold).
      bindr (if 32 \<le> size' then draw_accent_bar draw1 pl pt fold size' colors else Inr draw1)
        (\<lambda>draw2.
      bindr (logo_area pl pt pr pb fold size')
        (\<lambda>(logo_area_top, logo_area_bottom, logo_center_y, logo_center_x, logo_size).
      bindr (if 32 \<le> size' then draw_app_logo draw2 logo_center_x logo_center_y logo_size
             else Inr draw2) (\<lambda>draw3.
      let label_text = (if size' \<le> 16 then upper ext else ''.'' @ upper ext) in
      bindr (draw_extension_label e draw3 label_text pl pr pb size' colors) (\<lambda>draw4.
      Inr (img\<lparr>img_draw := draw4\<rparr>)))))))"

fun render_all ::
  "env \<Rightarrow> string \<Rightarrow> (string \<rightharpoonup> color) \<Rightarrow> int list \<Rightarrow> image list \<Rightarrow> error + image list" where
  "render_all e ext colors [] images = Inr images"
| "render_all e ext colors (size' # sizes) images =
     bindr (render_size e ext colors size')
       (\<lambda>img. render_all e ext colors sizes (images @ [img]))"

definition sorted_reverse :: "('a \<Rightarrow> int) \<Rightarrow> 'a list \<Rightarrow> 'a list" where
  \<comment> \<open>\<^verbatim>\<open>sorted(xs, key=k, reverse=True)\<close>: a stable sort, descending\<close>
  "sorted_reverse k xs = rev (sort_key k (rev xs))"

text \<open>
  The call \<^verbatim>\<open>images_sorted[0].save(output_path, format="ICO", append_images=images_sorted[1:])\<close>
  is recorded with its arguments; the container writer itself belongs to Pillow.
\<close>

record ico_file =
  ico_path :: string
  ico_base :: image
  ico_append_images :: "image list"

definition generate_icon :: "env \<Rightarrow> string \<Rightarrow> (string \<rightharpoonup> color) \<Rightarrow> error + ico_file" where
  "generate_icon e ext colors =
     bindr (render_all e ext colors ICO_SIZES []) (\<lambda>images.
     let output_path = path_join e (icons_dir e) (ext @ ''-document.ico'');
         images_sorted = sorted_reverse (\<lambda>im. fst (img_size im)) images
     in case images_sorted of
          [] \<Rightarrow> Inl IndexError
        | base # rest \<Rightarrow>
            Inr \<lparr>ico_path = output_path, ico_base = base, ico_append_images = rest\<rparr>)"



section \<open>The specification's wording and observers\<close>

text \<open>
  The margin and the fold as the specification words them, with arithmetic rounding to
  the nearest integer, and the logo area with the bare percentages.
\<close>

definition spec_margin :: "int \<Rightarrow> int" where
  "spec_margin s = max 1 (round (8 / 100 * of_int s :: rat))"

definition spec_fold :: "int \<Rightarrow> rat \<Rightarrow> int" where
  "spec_fold s fr = max 2 (round (fr * of_int s))"

definition spec_logo_area_top :: "int \<Rightarrow> int \<Rightarrow> int \<Rightarrow> rat" where
  "spec_logo_area_top pt fd s = of_int pt + of_int fd + 4 / 100 * of_int s"

definition spec_logo_area_bottom :: "int \<Rightarrow> int \<Rightarrow> rat" where
  "spec_logo_area_bottom pb s = of_int pb - max 4 (20 / 100 * of_int s)"

text \<open>What kind of shape an operation draws, with its fill and its outline.\<close>

datatype shape = PolygonShape | RoundedRectangleShape | RectangleShape | EllipseShape
  | LineShape | TextShape

fun summary :: "draw_op \<Rightarrow> shape \<times> color option \<times> color option" where
  "summary (Polygon ps f ol) = (PolygonShape, f, ol)"
| "summary (RoundedRectangle b r f) = (RoundedRectangleShape, f, None)"
| "summary (Rectangle b f ol w) = (RectangleShape, f, ol)"
| "summary (Ellipse b f ol w) = (EllipseShape, f, ol)"
| "summary (Line ps f w) = (LineShape, f, None)"
| "summary (Text p t f font) = (TextShape, f, None)"

fun texts :: "draw_op list \<Rightarrow> string list" where
  "texts [] = []"
| "texts (Text p t f font # ops) = t # texts ops"
| "texts (_ # ops) = texts ops"

text \<open>A platform on which no TrueType font can be opened, for the worked examples.\<close>

definition no_fonts :: env where
  "no_fonts =
     \<lparr>icons_dir = ''icons'',
      path_join = (\<lambda>a b. a @ ''/'' @ b),
      truetype = (\<lambda>name n. None),
      load_default = DefaultFont,
      textbbox = (\<lambda>font text. (0, 2, 6 * of_int (int (length text)), 9))\<rparr>"

section \<open>Rounding\<close>

lemma round_half_even_err: "\<bar>of_int (round_half_even y) - y\<bar> \<le> 1 / 2"
  unfolding round_half_even_def Let_def
  by (auto simp: abs_if not_less) linarith+

lemma round_half_even_of_int [simp]: "round_half_even (of_int k) = k"
  unfolding round_half_even_def Let_def by simp

lemma round_half_even_ge:
  assumes "of_int m \<le> y"
  shows "m \<le> round_half_even y"
proof -
  have "m \<le> \<lfloor>y\<rfloor>" using assms by (simp add: le_floor_iff)
  then show ?thesis by (auto simp: round_half_even_def Let_def)
qed

lemma round_half_even_le:
  assumes "y \<le> of_int m"
  shows "round_half_even y \<le> m"
proof (cases "y = of_int m")
  case True
  then show ?thesis by simp
next
  case False
  with assms have "y < of_int m" by simp
  then have "\<lfloor>y\<rfloor> < m" by (simp add: floor_less_iff)
  then show ?thesis by (auto simp: round_half_even_def Let_def)
qed

lemma power_int_two_pos: "(0::rat) < power_int 2 k"
  by (simp add: power_int_def)

lemma ilog2_bounds:
  assumes "0 < x"
  shows "power_int 2 (ilog2 x) \<le> x" and "x < power_int 2 (ilog2 x + 1)"
proof -
  obtain p q where pq: "quotient_of x = (p, q)" by (cases "quotient_of x")
  then have q: "0 < q" and x: "x = of_int p / of_int q"
    using quotient_of_denom_pos quotient_of_div by auto
  with assms have p: "0 < p"
    by (simp add: zero_less_divide_iff)
  define a b where "a = bitlen p" and "b = bitlen q"
  have pa: "2 ^ nat (a - 1) \<le> p" "p < 2 ^ nat a"
    using bitlen_bounds [OF p] by (simp_all add: a_def)
  have qb: "2 ^ nat (b - 1) \<le> q" "q < 2 ^ nat b"
    using bitlen_bounds [OF q] by (simp_all add: b_def)
  have a1: "1 \<le> a" and b1: "1 \<le> b"
    using p q by (simp_all add: a_def b_def bitlen_alt_def)
  have pa1: "(power_int 2 (a - 1) :: rat) \<le> of_int p"
  proof -
    have "(of_int (2 ^ nat (a - 1)) :: rat) \<le> of_int p"
      using pa(1) by (simp only: of_int_le_iff)
    then show ?thesis using a1 by (simp add: power_int_def)
  qed
  have pa2: "(of_int p :: rat) < power_int 2 a"
  proof -
    have "(of_int p :: rat) < of_int (2 ^ nat a)"
      using pa(2) by (simp only: of_int_less_iff)
    then show ?thesis using a1 by (simp add: power_int_def)
  qed
  have qb1: "(power_int 2 (b - 1) :: rat) \<le> of_int q"
  proof -
    have "(of_int (2 ^ nat (b - 1)) :: rat) \<le> of_int q"
      using qb(1) by (simp only: of_int_le_iff)
    then show ?thesis using b1 by (simp add: power_int_def)
  qed
  have qb2: "(of_int q :: rat) < power_int 2 b"
  proof -
    have "(of_int q :: rat) < of_int (2 ^ nat b)"
      using qb(2) by (simp only: of_int_less_iff)
    then show ?thesis using b1 by (simp add: power_int_def)
  qed
  have lo: "(power_int 2 (a - b - 1) :: rat) < x"
  proof -
    have "(power_int 2 (a - b - 1) :: rat) = power_int 2 (a - 1) / power_int 2 b"
      using power_int_diff [of "2::rat" "a - 1" b] by (simp add: algebra_simps)
    also have "\<dots> < of_int p / of_int q"
      using pa1 qb2 q by (intro frac_less2) (simp_all add: power_int_two_pos)
    finally show ?thesis by (simp add: x)
  qed
  have hi: "x < (power_int 2 (a - b + 1) :: rat)"
  proof -
    have "of_int p / of_int q < (power_int 2 a :: rat) / power_int 2 (b - 1)"
      using pa2 qb1 p by (intro frac_less) (simp_all add: power_int_two_pos)
    also have "\<dots> = power_int 2 (a - b + 1)"
      using power_int_diff [of "2::rat" a "b - 1"] by (simp add: algebra_simps)
    finally show ?thesis by (simp add: x)
  qed
  have e: "ilog2 x = (if power_int 2 (a - b) \<le> x then a - b else a - b - 1)"
    by (simp add: ilog2_def pq a_def b_def)
  show "power_int 2 (ilog2 x) \<le> x"
    using lo by (simp add: e)
  show "x < power_int 2 (ilog2 x + 1)"
    using hi by (auto simp add: e not_le)
qed

lemma fl_err:
  assumes "x \<noteq> 0"
  shows "\<bar>fl x - x\<bar> \<le> power_int 2 (ilog2 \<bar>x\<bar> - 53)"
proof -
  define q :: rat where "q = power_int 2 (ilog2 \<bar>x\<bar> - 52)"
  have q: "0 < q" by (simp add: q_def power_int_two_pos)
  have "fl x - x = (of_int (round_half_even (x / q)) - x / q) * q"
    using assms q by (simp add: fl_def q_def [symmetric] Let_def algebra_simps)
  then have "\<bar>fl x - x\<bar> = \<bar>of_int (round_half_even (x / q)) - x / q\<bar> * q"
    using q by (simp add: abs_mult)
  also have "\<dots> \<le> (1 / 2) * q"
    using round_half_even_err [of "x / q"] q by (intro mult_right_mono) simp_all
  also have "\<dots> = power_int 2 (ilog2 \<bar>x\<bar> - 53)"
    using power_int_diff [of "2::rat" "ilog2 \<bar>x\<bar> - 52" 1] by (simp add: q_def)
  finally show ?thesis .
qed

lemma fl_rel_err: "\<bar>fl x - x\<bar> \<le> \<bar>x\<bar> / 2 ^ 53"
proof (cases "x = 0")
  case True
  then show ?thesis by (simp add: fl_def)
next
  case False
  then have pos: "0 < \<bar>x\<bar>" by simp
  have "\<bar>fl x - x\<bar> \<le> power_int 2 (ilog2 \<bar>x\<bar> - 53)"
    using fl_err [OF False] .
  also have "\<dots> = power_int 2 (ilog2 \<bar>x\<bar>) / 2 ^ 53"
    using power_int_diff [of "2::rat" "ilog2 \<bar>x\<bar>" 53] by simp
  also have "\<dots> \<le> \<bar>x\<bar> / 2 ^ 53"
    using ilog2_bounds(1) [OF pos] by (simp add: divide_right_mono)
  finally show ?thesis .
qed



lemma is_inf_iff: "is_inf x \<longleftrightarrow> 2 ^ 1024 \<le> \<bar>x\<bar>"
proof (cases "x = 0")
  case True
  then show ?thesis by (simp add: is_inf_def)
next
  case False
  then have pos: "0 < \<bar>x\<bar>" by simp
  show ?thesis
  proof (cases "1024 \<le> ilog2 \<bar>x\<bar>")
    case True
    then have "(power_int 2 1024 :: rat) \<le> power_int 2 (ilog2 \<bar>x\<bar>)"
      by (intro power_int_increasing) simp_all
    also have "\<dots> \<le> \<bar>x\<bar>" using ilog2_bounds(1) [OF pos] .
    finally show ?thesis using True False by (simp add: is_inf_def)
  next
    case False
    then have "ilog2 \<bar>x\<bar> + 1 \<le> 1024" by simp
    then have "(power_int 2 (ilog2 \<bar>x\<bar> + 1) :: rat) \<le> power_int 2 1024"
      by (intro power_int_increasing) simp_all
    with ilog2_bounds(2) [OF pos] have "\<bar>x\<bar> < 2 ^ 1024" by simp
    then show ?thesis using False by (simp add: is_inf_def)
  qed
qed

lemma fl_zero [simp]: "fl 0 = 0"
  by (simp add: fl_def)

lemma fl_nonneg: "0 \<le> x \<Longrightarrow> 0 \<le> fl x"
  using fl_rel_err [of x] by (simp add: abs_if field_simps split: if_splits)

lemma fl_upper: "0 \<le> x \<Longrightarrow> fl x \<le> x * (1 + 1 / 2 ^ 53)"
  using fl_rel_err [of x] by (simp add: abs_if field_simps split: if_splits)

lemma trunc_nonneg: "0 \<le> x \<Longrightarrow> 0 \<le> trunc x \<and> of_int (trunc x) \<le> x"
  by (simp add: trunc_def)

lemma scaled_upper:
  assumes "scaled s c = Inr m" and "0 \<le> s" and "0 \<le> c"
  shows "0 \<le> m" and "of_int m \<le> of_int s * c * (1 + 1 / 2 ^ 53)\<^sup>2"
proof -
  define x where "x = fl (of_int s)"
  define y where "y = fl (x * c)"
  have m: "m = trunc y"
    using assms(1)
    by (auto simp: scaled_def to_float_def py_int_def bindr_def fmul_def Let_def x_def y_def
        split: if_splits)
  have x0: "0 \<le> x" and xu: "x \<le> of_int s * (1 + 1 / 2 ^ 53)"
    using fl_nonneg [of "of_int s"] fl_upper [of "of_int s"] assms(2) by (simp_all add: x_def)
  have y0: "0 \<le> y"
    using fl_nonneg [of "x * c"] x0 assms(3) by (simp add: y_def)
  have "y \<le> (x * c) * (1 + 1 / 2 ^ 53)"
    using fl_upper [of "x * c"] x0 assms(3) by (simp add: y_def)
  also have "\<dots> \<le> ((of_int s * (1 + 1 / 2 ^ 53)) * c) * (1 + 1 / 2 ^ 53)"
    using xu assms(3) by (intro mult_right_mono) simp_all
  finally have yu: "y \<le> of_int s * c * (1 + 1 / 2 ^ 53)\<^sup>2"
    by (simp add: power2_eq_square algebra_simps)
  show "0 \<le> m" using trunc_nonneg [OF y0] by (simp add: m)
  show "of_int m \<le> of_int s * c * (1 + 1 / 2 ^ 53)\<^sup>2"
    using trunc_nonneg [OF y0] yu by (simp add: m)
qed

lemma dec_8_100: "dec 8 100 = 5764607523034235 / 72057594037927936"
  by code_simp

lemma margin_bound:
  assumes "scaled s (dec 8 100) = Inr m" and "0 \<le> s"
  shows "0 \<le> m" and "1000 * m \<le> 82 * s"
proof -
  have c: "(0::rat) \<le> dec 8 100" by (simp add: dec_8_100)
  show "0 \<le> m" using scaled_upper(1) [OF assms(1) assms(2) c] .
  have "of_int m \<le> of_int s * dec 8 100 * (1 + 1 / 2 ^ 53)\<^sup>2"
    using scaled_upper(2) [OF assms(1) assms(2) c] .
  also have "\<dots> = of_int s * (dec 8 100 * (1 + 1 / 2 ^ 53)\<^sup>2)"
    by simp
  also have "\<dots> \<le> of_int s * (82 / 1000)"
    using assms(2) by (intro mult_left_mono) (simp_all add: dec_8_100 power2_eq_square)
  finally have "(of_int (1000 * m) :: rat) \<le> of_int (82 * s)"
    by simp
  then show "1000 * m \<le> 82 * s"
    by (simp only: of_int_le_iff)
qed



lemma ilog2_less:
  assumes "0 < x" and "x < 2 ^ n"
  shows "ilog2 x < int n"
proof (rule ccontr)
  assume "\<not> ilog2 x < int n"
  then have "int n \<le> ilog2 x" by simp
  then have "(power_int 2 (int n) :: rat) \<le> power_int 2 (ilog2 x)"
    by (intro power_int_increasing) simp_all
  also have "\<dots> \<le> x" using ilog2_bounds(1) [OF assms(1)] .
  finally show False using assms(2) by simp
qed


lemma fl_grid:
  assumes "0 < x" and "x < 2 ^ n" and "n + j \<le> 53"
    and "of_int a / 2 ^ j \<le> x" and "x \<le> of_int b / 2 ^ j"
  shows "of_int a / 2 ^ j \<le> fl x" and "fl x \<le> of_int b / 2 ^ j"
proof -
  define e where "e = ilog2 x"
  have e: "e < int n" using ilog2_less [OF assms(1,2)] by (simp add: e_def)
  define K where "K = nat (52 - e)"
  have K: "int K = 52 - e" and jK: "j \<le> K"
    using e assms(3) by (simp_all add: K_def)
  have q: "(power_int 2 (e - 52) :: rat) = 1 / 2 ^ K"
  proof -
    have "e - 52 = - int K" using K by simp
    then show ?thesis by (simp add: power_int_minus_divide)
  qed
  have flx: "fl x = of_int (round_half_even (x * 2 ^ K)) / 2 ^ K"
    using assms(1) by (simp add: fl_def e_def [symmetric] q Let_def)
  have pow: "(2::rat) ^ K = 2 ^ j * 2 ^ (K - j)"
    using jK by (simp add: power_add [symmetric])
  have "of_int (a * 2 ^ (K - j)) = (of_int a / 2 ^ j) * (2::rat) ^ K"
    by (simp add: pow)
  also have "\<dots> \<le> x * 2 ^ K"
    using assms(4) by (intro mult_right_mono) simp_all
  finally have "a * 2 ^ (K - j) \<le> round_half_even (x * 2 ^ K)"
    by (rule round_half_even_ge)
  then have "(of_int (a * 2 ^ (K - j)) :: rat) \<le> of_int (round_half_even (x * 2 ^ K))"
    by (simp only: of_int_le_iff)
  then have "(of_int (a * 2 ^ (K - j)) :: rat) / 2 ^ K \<le> fl x"
    by (simp add: flx divide_right_mono)
  then show "of_int a / 2 ^ j \<le> fl x"
    by (simp add: pow)
  have "x * 2 ^ K \<le> (of_int b / 2 ^ j) * (2::rat) ^ K"
    using assms(5) by (intro mult_right_mono) simp_all
  also have "\<dots> = of_int (b * 2 ^ (K - j))"
    by (simp add: pow)
  finally have "round_half_even (x * 2 ^ K) \<le> b * 2 ^ (K - j)"
    by (rule round_half_even_le)
  then have "(of_int (round_half_even (x * 2 ^ K)) :: rat) \<le> of_int (b * 2 ^ (K - j))"
    by (simp only: of_int_le_iff)
  then have "fl x \<le> (of_int (b * 2 ^ (K - j)) :: rat) / 2 ^ K"
    by (simp add: flx divide_right_mono)
  then show "fl x \<le> of_int b / 2 ^ j"
    by (simp add: pow)
qed

lemma fl_of_int:
  assumes "0 \<le> s" and "s < 2 ^ 53"
  shows "fl (of_int s) = of_int s"
proof (cases "s = 0")
  case True
  then show ?thesis by simp
next
  case False
  with assms have pos: "(0::rat) < of_int s" by simp
  have lt: "(of_int s :: rat) < 2 ^ 53"
    using assms(2) by (metis of_int_less_iff of_int_numeral of_int_power)
  have "of_int s / 2 ^ 0 \<le> fl (of_int s)" "fl (of_int s) \<le> of_int s / 2 ^ 0"
    using fl_grid [OF pos lt, of 0 s s] by simp_all
  then show ?thesis by simp
qed

lemma scaled_floor:
  assumes s: "0 \<le> s" "s < 2 ^ 31"
    and c: "0 \<le> c" "c \<le> 1"
    and n: "of_int n \<le> of_int s * c" "of_int s * c \<le> of_int n + 127 / 128"
  shows "scaled s c = Inr n"
proof -
  have s53: "s < 2 ^ 53" using s(2) by simp
  have slt: "(of_int s :: rat) < 2 ^ 31"
    using s(2) by (metis of_int_less_iff of_int_numeral of_int_power)
  have tf: "to_float s = Inr (of_int s)"
    using slt s(1) by (simp add: to_float_def fl_of_int [OF s(1) s53] is_inf_iff Let_def)
  define x where "x = of_int s * c"
  have x0: "0 \<le> x" using s(1) c(1) by (simp add: x_def)
  have "x \<le> of_int s * 1"
    unfolding x_def using c(2) s(1) by (intro mult_left_mono) simp_all
  with slt have xlt: "x < 2 ^ 31" by simp
  have n0: "0 \<le> n"
  proof -
    have "(0::rat) \<le> of_int n + 127 / 128" using x0 n(2) by (simp add: x_def)
    then have "(of_int (- 1) :: rat) < of_int n" by simp
    then have "- 1 < n" by (simp only: of_int_less_iff)
    then show ?thesis by simp
  qed
  have nx: "of_int n \<le> x" "x \<le> of_int n + 127 / 128"
    using n by (simp_all add: x_def)
  have bounds: "of_int n \<le> fl x \<and> fl x \<le> of_int n + 127 / 128"
  proof (cases "x = 0")
    case True
    with nx show ?thesis by simp
  next
    case False
    with x0 have pos: "0 < x" by simp
    have lo: "of_int (n * 128) / 2 ^ 7 \<le> x"
      using n(1) by (simp add: x_def)
    have hi: "x \<le> of_int (n * 128 + 127) / 2 ^ 7"
      using n(2) by (simp add: x_def field_simps)
    have "of_int (n * 128) / 2 ^ 7 \<le> fl x" "fl x \<le> of_int (n * 128 + 127) / 2 ^ 7"
      using fl_grid [OF pos xlt _ lo hi] by simp_all
    then show ?thesis by (simp add: field_simps)
  qed
  then have fl0: "0 \<le> fl x" using n0 by simp
  have "\<lfloor>fl x\<rfloor> = n"
    using bounds by (intro floor_unique) simp_all
  then have tr: "trunc (fl x) = n"
    using fl0 by (simp add: trunc_def)
  have "fl x < 2 ^ 1024"
  proof -
    have "fl x \<le> of_int n + 127 / 128" using bounds by simp
    also have "\<dots> \<le> x + 127 / 128" using n(1) by (simp add: x_def)
    also have "\<dots> < 2 ^ 31 + 1" using xlt by simp
    also have "\<dots> < 2 ^ 1024" by simp
    finally show ?thesis .
  qed
  then have "\<not> is_inf (fl x)"
    using fl0 by (simp add: is_inf_iff)
  then show ?thesis
    by (simp add: scaled_def tf bindr_def py_int_def fmul_def x_def [symmetric] tr)
qed



lemma scaled_exact:
  assumes s: "0 \<le> s" "s < 2 ^ 31"
    and ab: "0 \<le> a" "0 < b" "b \<le> 100"
    and c: "of_int a / of_int b \<le> c" "c \<le> of_int a / of_int b + 1 / 2 ^ 40" "c \<le> 1"
  shows "scaled s c = Inr (a * s div b)"
proof (rule scaled_floor [OF s])
  define n where "n = a * s div b"
  define r where "r = a * s mod b"
  have sr: "a * s = b * n + r" and r: "0 \<le> r" "r \<le> b - 1"
    unfolding n_def r_def using ab(2) by (simp_all add: pos_mod_bound zle_diff1_eq)
  have slt: "(of_int s :: rat) < 2 ^ 31"
    using s(2) by (metis of_int_less_iff of_int_numeral of_int_power)
  have s0: "(0::rat) \<le> of_int s" using s(1) by simp
  have b0: "(0::rat) < of_int b" using ab(2) by simp
  have ex: "(of_int s :: rat) * (of_int a / of_int b) = of_int n + of_int r / of_int b"
  proof -
    have "(of_int (a * s) :: rat) = of_int (b * n + r)" by (simp only: sr)
    then show ?thesis using b0 by (simp add: field_simps)
  qed
  have rb: "(of_int r :: rat) / of_int b \<le> 99 / 100"
  proof -
    have "100 * r \<le> 99 * b"
      using r(2) ab(3) by simp
    then have "(of_int (100 * r) :: rat) \<le> of_int (99 * b)"
      by (simp only: of_int_le_iff)
    then show ?thesis using b0 by (simp add: field_simps)
  qed
  have c0: "0 \<le> c"
  proof -
    have "(0::rat) \<le> of_int a / of_int b" using ab(1) b0 by simp
    with c(1) show ?thesis by simp
  qed
  show "0 \<le> c" "c \<le> 1" using c0 c(3) by simp_all
  have "(of_int n :: rat) \<le> of_int n + of_int r / of_int b"
    using r(1) b0 by simp
  also have "\<dots> = of_int s * (of_int a / of_int b)"
    by (rule ex [symmetric])
  also have "\<dots> \<le> of_int s * c"
    using s0 c(1) by (intro mult_left_mono) simp_all
  finally show "of_int (a * s div b) \<le> (of_int s :: rat) * c"
    by (simp add: n_def)
  have "(of_int s :: rat) * c = of_int s * (of_int a / of_int b) + of_int s * (c - of_int a / of_int b)"
    by (simp add: algebra_simps)
  also have "\<dots> \<le> of_int s * (of_int a / of_int b) + 2 ^ 31 * (1 / 2 ^ 40)"
    using slt s0 c(1,2) by (intro add_left_mono mult_mono) simp_all
  also have "\<dots> = (of_int n + of_int r / of_int b) + 2 ^ 31 * (1 / 2 ^ 40)"
    by (simp only: ex)
  also have "\<dots> \<le> (of_int n + 99 / 100) + 2 ^ 31 * (1 / 2 ^ 40)"
    by (rule add_right_mono, rule add_left_mono, rule rb)
  also have "\<dots> \<le> of_int n + 127 / 128"
    by simp
  finally show "(of_int s :: rat) * c \<le> of_int (a * s div b) + 127 / 128"
    by (simp add: n_def)
qed

lemma fl_abs_le: "\<bar>fl x\<bar> \<le> 2 * \<bar>x\<bar>"
proof -
  have "\<bar>fl x\<bar> \<le> \<bar>fl x - x\<bar> + \<bar>x\<bar>" by simp
  also have "\<dots> \<le> \<bar>x\<bar> / 2 ^ 53 + \<bar>x\<bar>" using fl_rel_err [of x] by simp
  also have "\<dots> \<le> 2 * \<bar>x\<bar>" by simp
  finally show ?thesis .
qed

lemma fl_finite: "\<bar>x\<bar> < 2 ^ 1023 \<Longrightarrow> \<not> is_inf (fl x)"
  using fl_abs_le [of x] by (simp add: is_inf_iff)

lemma abs_of_int_less: "\<bar>n\<bar> < 2 ^ k \<Longrightarrow> \<bar>of_int n :: rat\<bar> < 2 ^ k"
  by (metis of_int_abs of_int_less_iff of_int_numeral of_int_power)

lemma to_float_ok:
  assumes "\<bar>n\<bar> < 2 ^ 1000"
  shows "to_float n = Inr (fl (of_int n))" and "\<bar>fl (of_int n)\<bar> < 2 ^ 1001"
proof -
  have n: "\<bar>of_int n :: rat\<bar> < 2 ^ 1000" using assms by (rule abs_of_int_less)
  then have "\<bar>of_int n :: rat\<bar> < 2 ^ 1023" by simp
  then show "to_float n = Inr (fl (of_int n))"
    using fl_finite by (simp add: to_float_def Let_def)
  show "\<bar>fl (of_int n)\<bar> < 2 ^ 1001"
    using fl_abs_le [of "of_int n"] n by simp
qed

lemma int_truediv2_ok:
  assumes "\<bar>n\<bar> < 2 ^ 1000"
  shows "int_truediv2 n = Inr (fl (of_int n / 2))"
proof -
  have "\<bar>of_int n :: rat\<bar> < 2 ^ 1000" using assms by (rule abs_of_int_less)
  then have "\<bar>of_int n / 2 :: rat\<bar> < 2 ^ 1023" by simp
  then show ?thesis
    using fl_finite by (simp add: int_truediv2_def Let_def)
qed

lemma trunc_abs_le: "\<bar>of_int (trunc x) :: rat\<bar> \<le> \<bar>x\<bar>"
proof (cases "0 \<le> x")
  case True
  then show ?thesis by (simp add: trunc_def)
next
  case False
  then have neg: "x < 0" by simp
  have 1: "x \<le> of_int \<lceil>x\<rceil>" by (rule le_of_int_ceiling)
  have "\<lceil>x\<rceil> \<le> 0" using neg by (simp add: ceiling_le_iff)
  then have 2: "(of_int \<lceil>x\<rceil> :: rat) \<le> 0" by simp
  show ?thesis using neg 1 2 by (simp add: trunc_def)
qed

lemma py_int_fmul_ok:
  assumes "\<bar>x\<bar> < 2 ^ 1010" and "\<bar>c\<bar> \<le> 1"
  shows "py_int (fmul x c) = Inr (trunc (fmul x c))" and "\<bar>of_int (trunc (fmul x c)) :: rat\<bar> \<le> 2 * \<bar>x\<bar>"
proof -
  have xc: "\<bar>x * c\<bar> \<le> \<bar>x\<bar>"
    using assms(2) by (simp add: abs_mult mult_left_le)
  with assms(1) have "\<bar>x * c\<bar> < 2 ^ 1023" by simp
  then show "py_int (fmul x c) = Inr (trunc (fmul x c))"
    using fl_finite by (simp add: py_int_def fmul_def)
  have "\<bar>of_int (trunc (fmul x c)) :: rat\<bar> \<le> \<bar>fl (x * c)\<bar>"
    using trunc_abs_le by (simp add: fmul_def)
  also have "\<dots> \<le> 2 * \<bar>x * c\<bar>" by (rule fl_abs_le)
  also have "\<dots> \<le> 2 * \<bar>x\<bar>" using xc by simp
  finally show "\<bar>of_int (trunc (fmul x c)) :: rat\<bar> \<le> 2 * \<bar>x\<bar>" .
qed

lemma scaled_ok:
  assumes "\<bar>n\<bar> < 2 ^ 1000" and "\<bar>c\<bar> \<le> 1"
  shows "\<exists>m. scaled n c = Inr m \<and> \<bar>m\<bar> \<le> 4 * \<bar>n\<bar>"
proof -
  define x where "x = fl (of_int n)"
  have tf: "to_float n = Inr x" and x: "\<bar>x\<bar> < 2 ^ 1001"
    using to_float_ok [OF assms(1)] by (simp_all add: x_def)
  have x': "\<bar>x\<bar> < 2 ^ 1010" using x by simp
  have p: "py_int (fmul x c) = Inr (trunc (fmul x c))"
    and t: "\<bar>of_int (trunc (fmul x c)) :: rat\<bar> \<le> 2 * \<bar>x\<bar>"
    using py_int_fmul_ok [OF x' assms(2)] by simp_all
  have "\<bar>x\<bar> \<le> 2 * \<bar>of_int n\<bar>" unfolding x_def by (rule fl_abs_le)
  with t have "\<bar>of_int (trunc (fmul x c)) :: rat\<bar> \<le> of_int (4 * \<bar>n\<bar>)" by simp
  then have "(of_int \<bar>trunc (fmul x c)\<bar> :: rat) \<le> of_int (4 * \<bar>n\<bar>)" by simp
  then have "\<bar>trunc (fmul x c)\<bar> \<le> 4 * \<bar>n\<bar>" by (simp only: of_int_le_iff)
  then show ?thesis by (simp add: scaled_def tf p bindr_def)
qed

lemma fl_le_one:
  assumes "0 \<le> x" and "x \<le> 1"
  shows "fl x \<le> 1"
proof (cases "x = 0")
  case True
  then show ?thesis by simp
next
  case False
  with assms have pos: "0 < x" and lt: "x < 2 ^ 1" by simp_all
  have lo: "of_int 0 / 2 ^ 0 \<le> x" and hi: "x \<le> of_int 1 / 2 ^ 0"
    using assms by simp_all
  have "fl x \<le> of_int 1 / 2 ^ 0"
    using fl_grid(2) [OF pos lt _ lo hi] by simp
  then show ?thesis by simp
qed

lemma dec_unit:
  assumes "0 \<le> m" and "m \<le> d" and "0 < d"
  shows "\<bar>dec m d\<bar> \<le> 1"
proof -
  have 1: "(0::rat) \<le> of_int m / of_int d" using assms(1,3) by simp
  have "(of_int m :: rat) \<le> of_int d" using assms(2) by (simp only: of_int_le_iff)
  then have 2: "(of_int m :: rat) / of_int d \<le> 1" using assms(3) by (simp add: divide_le_eq)
  show ?thesis
    using fl_nonneg [OF 1] fl_le_one [OF 1 2] by (simp add: dec_def)
qed

section \<open>Exact arithmetic on small sizes\<close>

subsection \<open>Negative numbers\<close>

lemma round_half_even_minus: "round_half_even (- y) = - round_half_even y"
proof (cases "y = of_int \<lfloor>y\<rfloor>")
  case True
  then obtain k where "y = of_int k" by blast
  then show ?thesis by (simp add: of_int_minus [symmetric] del: of_int_minus)
next
  case False
  define f where "f = \<lfloor>y\<rfloor>"
  define d where "d = y - of_int f"
  have d: "0 < d" "d < 1"
    using False unfolding d_def f_def by (simp_all add: less_le) linarith
  have y: "y = of_int f + d" by (simp add: d_def)
  have fm: "\<lfloor>- y\<rfloor> = - f - 1"
    using d by (intro floor_unique) (simp_all add: y)
  have dm: "- y - of_int (- f - 1) = 1 - d"
    by (simp add: y)
  have fy: "\<lfloor>y\<rfloor> = f" "y - of_int f = d"
    by (simp_all add: f_def d_def)
  have a: "round_half_even y = (if d < 1 / 2 then f else if 1 / 2 < d then f + 1
             else if even f then f else f + 1)"
    by (simp only: round_half_even_def Let_def fy)
  have b: "round_half_even (- y) = (if 1 - d < 1 / 2 then - f - 1
             else if 1 / 2 < 1 - d then - f - 1 + 1
             else if even (- f - 1) then - f - 1 else - f - 1 + 1)"
    by (simp only: round_half_even_def Let_def fm dm)
  consider "d < 1 / 2" | "d = 1 / 2" | "1 / 2 < d" by linarith
  then show ?thesis
  proof cases
    case 1
    then show ?thesis unfolding a b by simp
  next
    case 2
    then show ?thesis unfolding a b by simp
  next
    case 3
    then show ?thesis unfolding a b by simp
  qed
qed

lemma fl_minus: "fl (- x) = - fl x"
  by (simp add: fl_def Let_def round_half_even_minus)

lemma fl_of_int_abs:
  assumes "\<bar>s\<bar> < 2 ^ 53"
  shows "fl (of_int s) = of_int s"
proof (cases "0 \<le> s")
  case True
  with assms show ?thesis by (simp add: fl_of_int)
next
  case False
  with assms have "0 \<le> - s" "- s < 2 ^ 53" by simp_all
  then have "fl (of_int (- s)) = of_int (- s)" by (rule fl_of_int)
  then show ?thesis by (simp add: fl_minus)
qed

lemma fl_half_of_int:
  assumes "\<bar>n\<bar> < 2 ^ 52"
  shows "fl (of_int n / 2) = of_int n / 2"
proof -
  have pos: "fl (of_int m / 2) = of_int m / 2" if "0 \<le> m" "m < 2 ^ 52" for m :: int
  proof (cases "m = 0")
    case True
    then show ?thesis by simp
  next
    case False
    with that have x: "(0::rat) < of_int m / 2" by simp
    have "(of_int m :: rat) < 2 ^ 52"
      using that(2) by (metis of_int_less_iff of_int_numeral of_int_power)
    then have lt: "(of_int m :: rat) / 2 < 2 ^ 52" by simp
    have "of_int m / 2 ^ 1 \<le> fl (of_int m / 2)" "fl (of_int m / 2) \<le> of_int m / 2 ^ 1"
      using fl_grid [OF x lt, of 1 m m] by simp_all
    then show ?thesis by simp
  qed
  show ?thesis
  proof (cases "0 \<le> n")
    case True
    with assms show ?thesis by (simp add: pos)
  next
    case False
    with assms have "0 \<le> - n" "- n < 2 ^ 52" by simp_all
    then have "fl (of_int (- n) / 2) = of_int (- n) / 2" by (rule pos)
    then have "fl (- (of_int n / 2)) = - (of_int n / 2)" by simp
    then show ?thesis by (simp add: fl_minus)
  qed
qed

lemma to_float_exact:
  assumes "\<bar>n\<bar> < 2 ^ 53"
  shows "to_float n = Inr (of_int n)"
proof -
  have "\<bar>of_int n :: rat\<bar> < 2 ^ 53" using assms by (rule abs_of_int_less)
  then have "\<not> is_inf (of_int n)" by (simp add: is_inf_iff)
  then show ?thesis by (simp add: to_float_def Let_def fl_of_int_abs [OF assms])
qed

lemma int_truediv2_exact:
  assumes "\<bar>n\<bar> < 2 ^ 52"
  shows "int_truediv2 n = Inr (of_int n / 2)"
proof -
  have "\<bar>of_int n :: rat\<bar> < 2 ^ 52" using assms by (rule abs_of_int_less)
  then have "\<not> is_inf (of_int n / 2)" by (simp add: is_inf_iff)
  then show ?thesis by (simp add: int_truediv2_def Let_def fl_half_of_int [OF assms])
qed

subsection \<open>The decimal literals\<close>

lemma dec_22_100: "dec 22 100 = 7926335344172073 / 36028797018963968"
  by code_simp

lemma dec_2_100: "dec 2 100 = 5764607523034235 / 288230376151711744"
  by code_simp

lemma dec_18_100: "dec 18 100 = 3242591731706757 / 18014398509481984"
  by code_simp

lemma dec_4_100: "dec 4 100 = 5764607523034235 / 144115188075855872"
  by code_simp

lemma dec_20_100: "dec 20 100 = 3602879701896397 / 18014398509481984"
  by code_simp

lemma dec_8_10: "dec 8 10 = 3602879701896397 / 4503599627370496"
  by code_simp

lemma scaled_exact_below:
  assumes s: "0 \<le> s" "s < 2 ^ 31"
    and ab: "0 \<le> a" "0 < b" "b \<le> 100" "a * s mod b \<noteq> 0"
    and c: "c \<le> of_int a / of_int b" "of_int a / of_int b - 1 / 2 ^ 40 \<le> c" "0 \<le> c" "c \<le> 1"
  shows "scaled s c = Inr (a * s div b)"
proof (rule scaled_floor [OF s c(3,4)])
  define n where "n = a * s div b"
  define r where "r = a * s mod b"
  have "0 \<le> a * s mod b" "a * s mod b < b"
    using ab(2) by simp_all
  then have r: "1 \<le> r" "r \<le> b - 1"
    using ab(4) unfolding r_def by linarith+
  have sr: "a * s = b * n + r"
    by (simp add: n_def r_def)
  have slt: "(of_int s :: rat) < 2 ^ 31"
    using s(2) by (metis of_int_less_iff of_int_numeral of_int_power)
  have s0: "(0::rat) \<le> of_int s" using s(1) by simp
  have b0: "(0::rat) < of_int b" using ab(2) by simp
  have ex: "(of_int s :: rat) * (of_int a / of_int b) = of_int n + of_int r / of_int b"
  proof -
    have "(of_int (a * s) :: rat) = of_int (b * n + r)" by (simp only: sr)
    then show ?thesis using b0 by (simp add: field_simps)
  qed
  have rb: "(of_int r :: rat) / of_int b \<le> 99 / 100"
  proof -
    have "100 * r \<le> 99 * b"
      using r(2) ab(3) by simp
    then have "(of_int (100 * r) :: rat) \<le> of_int (99 * b)"
      by (simp only: of_int_le_iff)
    then show ?thesis using b0 by (simp add: field_simps)
  qed
  have rb': "(1::rat) / 100 \<le> of_int r / of_int b"
  proof -
    have "b \<le> 100 * r"
      using r(1) ab(3) by simp
    then have "(of_int b :: rat) \<le> of_int (100 * r)"
      by (simp only: of_int_le_iff)
    then show ?thesis using b0 by (simp add: field_simps)
  qed
  have "(of_int s :: rat) * c \<le> of_int s * (of_int a / of_int b)"
    using s0 c(1) by (intro mult_left_mono) simp_all
  also have "\<dots> = of_int n + of_int r / of_int b"
    by (rule ex)
  also have "\<dots> \<le> of_int n + 99 / 100"
    by (rule add_left_mono, rule rb)
  finally show "(of_int s :: rat) * c \<le> of_int (a * s div b) + 127 / 128"
    by (simp add: n_def)
  have d0: "0 \<le> of_int a / of_int b - c" and d1: "of_int a / of_int b - c \<le> 1 / 2 ^ 40"
    using c(1,2) by linarith+
  have "(of_int s :: rat) * (of_int a / of_int b - c) \<le> 2 ^ 31 * (1 / 2 ^ 40)"
  proof (rule mult_mono)
    show "(of_int s :: rat) \<le> 2 ^ 31" using slt by simp
    show "of_int a / of_int b - c \<le> 1 / 2 ^ 40" by (rule d1)
    show "(0::rat) \<le> 2 ^ 31" by simp
    show "0 \<le> of_int a / of_int b - c" by (rule d0)
  qed
  moreover have "(of_int s :: rat) * (of_int a / of_int b - c) =
      of_int s * (of_int a / of_int b) - of_int s * c"
    by (rule right_diff_distrib)
  moreover have "(2::rat) ^ 31 * (1 / 2 ^ 40) = 1 / 512"
    by simp
  ultimately have "(of_int s :: rat) * (of_int a / of_int b) - 1 / 512 \<le> of_int s * c"
    by linarith
  then have "(of_int n + of_int r / of_int b) - 1 / 512 \<le> (of_int s :: rat) * c"
    by (simp only: ex)
  with rb' show "of_int (a * s div b) \<le> (of_int s :: rat) * c"
    by (simp add: n_def)
qed

subsection \<open>The dimensions in exact arithmetic\<close>

lemma margin_exact:
  assumes "0 \<le> s" and "s < 2 ^ 31"
  shows "margin s = Inr (max 1 (8 * s div 100))"
proof -
  have "scaled s (dec 8 100) = Inr (8 * s div 100)"
    by (rule scaled_exact [OF assms]) (simp_all add: dec_8_100)
  then show ?thesis by (simp add: margin_def bindr_def)
qed

lemma fold_exact:
  assumes "0 \<le> s" and "s < 2 ^ 31"
  shows "fold' s (dec 22 100) = Inr (max 2 (22 * s div 100))"
proof -
  have "scaled s (dec 22 100) = Inr (22 * s div 100)"
    by (rule scaled_exact [OF assms]) (simp_all add: dec_22_100)
  then show ?thesis by (simp add: fold'_def bindr_def)
qed

lemma scaled_2_exact:
  assumes "0 \<le> s" and "s < 2 ^ 31"
  shows "scaled s (dec 2 100) = Inr (2 * s div 100)"
  by (rule scaled_exact [OF assms]) (simp_all add: dec_2_100)

lemma scaled_4_exact:
  assumes "0 \<le> s" and "s < 2 ^ 31"
  shows "scaled s (dec 4 100) = Inr (4 * s div 100)"
  by (rule scaled_exact [OF assms]) (simp_all add: dec_4_100)

lemma scaled_20_exact:
  assumes "0 \<le> s" and "s < 2 ^ 31"
  shows "scaled s (dec 20 100) = Inr (20 * s div 100)"
  by (rule scaled_exact [OF assms]) (simp_all add: dec_20_100)

lemma scaled_18_exact:
  assumes "0 \<le> s" and "s < 2 ^ 31" and "18 * s mod 100 \<noteq> 0"
  shows "scaled s (dec 18 100) = Inr (18 * s div 100)"
  by (rule scaled_exact_below [OF assms(1,2) _ _ _ assms(3)]) (simp_all add: dec_18_100)

lemma shadow_offset_exact:
  assumes "0 \<le> s" and "s < 2 ^ 31"
  shows "shadow_offset s = Inr (max 1 (2 * s div 100))"
  by (simp add: shadow_offset_def scaled_2_exact [OF assms] bindr_def)

lemma label_margin_exact:
  assumes "0 \<le> s" and "s < 2 ^ 31"
  shows "label_margin s = Inr (max 0 (2 * s div 100))"
  by (simp add: label_margin_def scaled_2_exact [OF assms] bindr_def)

lemma bar_margin_exact:
  assumes "0 \<le> s" and "s < 2 ^ 31"
  shows "bar_margin s = Inr (max 0 (2 * s div 100))"
  by (simp add: bar_margin_def scaled_2_exact [OF assms] bindr_def)

lemma bar_height_exact:
  assumes "0 \<le> s" and "s < 2 ^ 31"
  shows "bar_height s = Inr (max 1 (4 * s div 100))"
  by (simp add: bar_height_def scaled_4_exact [OF assms] bindr_def)

lemma label_height_exact:
  assumes "0 \<le> s" and "s < 2 ^ 31" and "18 * s mod 100 \<noteq> 0"
  shows "label_height s = Inr (max 4 (18 * s div 100))"
  by (simp add: label_height_def scaled_18_exact [OF assms] bindr_def)

lemma font_size_exact:
  assumes "0 \<le> lh" and "lh < 2 ^ 31"
  shows "font_size lh = Inr (max 6 (8 * lh div 10))"
proof -
  have "scaled lh (dec 8 10) = Inr (8 * lh div 10)"
    by (rule scaled_exact [OF assms]) (simp_all add: dec_8_10)
  then show ?thesis by (simp add: font_size_def bindr_def)
qed

section \<open>What the renderers return\<close>

subsection \<open>The renderers\<close>

lemma draw_document_page_result:
  assumes "draw_document_page draw s fr = Inr (draw', pl, pt, pr, pb, f)"
  shows "margin s = Inr pl \<and> fold' s fr = Inr f \<and> pt = pl \<and> pr = s - pl - 1 \<and> pb = s - pl - 1"
proof -
  obtain m where m: "margin s = Inr m"
    using assms by (cases "margin s") (simp_all add: draw_document_page_def bindr_def)
  obtain k where k: "fold' s fr = Inr k"
    using assms m by (cases "fold' s fr") (simp_all add: draw_document_page_def bindr_def)
  show ?thesis
    using assms
    by (simp add: draw_document_page_def m k bindr_def Let_def split: sum.splits if_splits)
qed

lemma margin_result:
  assumes "margin s = Inr m"
  shows "\<exists>v. scaled s (dec 8 100) = Inr v \<and> m = max 1 v"
  using assms by (auto simp: margin_def bindr_def split: sum.splits)

lemma fold_result:
  assumes "fold' s fr = Inr f"
  shows "\<exists>v. scaled s fr = Inr v \<and> f = max 2 v"
  using assms by (auto simp: fold'_def bindr_def split: sum.splits)

lemma draw_document_page_exact:
  assumes "0 \<le> s" and "s < 2 ^ 31"
  shows "draw_document_page d s (dec 22 100) =
     (let m = max 1 (8 * s div 100); f = max 2 (22 * s div 100);
          so = max 1 (2 * s div 100); r = s - m - 1
      in Inr (d @
                (if 32 \<le> s then
                   [Polygon
                      [(of_int (m + so), of_int (m + f + so)),
                       (of_int (r - f + so), of_int (m + so)),
                       (of_int (r + so), of_int (m + f + so)),
                       (of_int (r + so), of_int (r + so)),
                       (of_int (m + so), of_int (r + so))]
                      (Some (180, 180, 180)) None]
                 else []) @
                [Polygon
                   [(of_int m, of_int m), (of_int (r - f), of_int m), (of_int r, of_int (m + f)),
                    (of_int r, of_int r), (of_int m, of_int r)]
                   (Some (255, 255, 255)) (Some (200, 200, 200)),
                 Polygon
                   [(of_int (r - f), of_int m), (of_int r, of_int (m + f)),
                    (of_int (r - f), of_int (m + f))]
                   (Some (230, 230, 235)) (Some (200, 200, 200))],
              m, m, r, r, f))"
  by (simp add: draw_document_page_def margin_exact [OF assms] fold_exact [OF assms]
      shadow_offset_exact [OF assms] bindr_def Let_def)

lemma draw_accent_bar_exact:
  assumes "0 \<le> s" and "s < 2 ^ 31" and "\<bar>pl\<bar> < 2 ^ 53" and "colors ''accent'' = Some a"
  shows "draw_accent_bar d pl pt fd s colors =
     Inr (d @
       [Rectangle
          (of_int (pl + max 0 (2 * s div 100)), of_int (pt + max 0 (2 * s div 100)),
           fadd (of_int pl) (fmul (of_int s) (dec 55 100)),
           of_int (pt + max 0 (2 * s div 100) + max 1 (4 * s div 100)))
          (Some a) None None])"
proof -
  have s53: "\<bar>s\<bar> < 2 ^ 53" using assms(1,2) by simp
  show ?thesis
    by (simp add: draw_accent_bar_def bar_height_exact [OF assms(1,2)]
        bar_margin_exact [OF assms(1,2)] to_float_exact [OF assms(3)] to_float_exact [OF s53]
        getitem_def assms(4) bindr_def)
qed

lemma logo_area_exact:
  assumes "0 \<le> s" and "s < 2 ^ 31"
    and "\<bar>pl\<bar> < 2 ^ 40" and "\<bar>pt\<bar> < 2 ^ 40" and "\<bar>pr\<bar> < 2 ^ 40" and "\<bar>pb\<bar> < 2 ^ 40"
    and "\<bar>fd\<bar> < 2 ^ 40"
  shows "logo_area pl pt pr pb fd s =
     (let top = pt + fd + max 1 (4 * s div 100); bottom = pb - max 4 (20 * s div 100)
      in Inr (top, bottom, of_int (top + bottom) / 2, of_int (pl + pr) / 2,
              min (fmul (of_int (pr - pl)) (dec 55 100))
                  (fmul (of_int (bottom - top)) (dec 85 100))))"
proof -
  define ka where "ka = max 1 (4 * s div 100)"
  define kb where "kb = max 4 (20 * s div 100)"
  define top where "top = pt + fd + ka"
  define bottom where "bottom = pb - kb"
  have "0 \<le> 4 * s div 100" "4 * s div 100 < 2 ^ 31" "0 \<le> 20 * s div 100" "20 * s div 100 < 2 ^ 31"
    using assms(1,2) by simp_all
  then have k: "0 \<le> ka" "ka < 2 ^ 31" "0 \<le> kb" "kb < 2 ^ 31"
    unfolding ka_def kb_def by simp_all
  have 1: "\<bar>top + bottom\<bar> < 2 ^ 52" and 2: "\<bar>pl + pr\<bar> < 2 ^ 52"
    and 3: "\<bar>pr - pl\<bar> < 2 ^ 53" and 4: "\<bar>bottom - top\<bar> < 2 ^ 53"
    using assms(3-7) k unfolding top_def bottom_def by simp_all
  have "logo_area pl pt pr pb fd s =
      Inr (top, bottom, of_int (top + bottom) / 2, of_int (pl + pr) / 2,
           min (fmul (of_int (pr - pl)) (dec 55 100)) (fmul (of_int (bottom - top)) (dec 85 100)))"
    unfolding logo_area_def
    by (simp only: scaled_4_exact [OF assms(1,2)] scaled_20_exact [OF assms(1,2)] bindr_def
        sum.case Let_def ka_def [symmetric] kb_def [symmetric] top_def [symmetric]
        bottom_def [symmetric] int_truediv2_exact [OF 1] int_truediv2_exact [OF 2]
        to_float_exact [OF 3] to_float_exact [OF 4])
  then show ?thesis
    by (simp only: Let_def top_def bottom_def ka_def kb_def)
qed

lemma py_int_clamped:
  assumes "\<bar>r\<bar> < 2 ^ 1000" and "\<bar>c\<bar> \<le> 1"
  shows "bindr (py_int (fmul r c)) (\<lambda>v. Inr (max lo v)) = Inr (max lo (trunc (fmul r c)))"
proof -
  have "\<bar>r\<bar> < 2 ^ 1010" using assms(1) by simp
  then show ?thesis
    by (simp add: py_int_fmul_ok(1) [OF _ assms(2)] bindr_def)
qed

lemma logo_radius_ok: "\<bar>r\<bar> < 2 ^ 1000 \<Longrightarrow> logo_radius r = Inr (max 1 (trunc (fmul r (dec 25 100))))"
  unfolding logo_radius_def by (rule py_int_clamped) (simp_all add: dec_unit)

lemma line_w_ok: "\<bar>r\<bar> < 2 ^ 1000 \<Longrightarrow> line_w r = Inr (max 1 (trunc (fmul r (dec 12 100))))"
  unfolding line_w_def by (rule py_int_clamped) (simp_all add: dec_unit)

lemma diagonal_width_ok:
  "\<bar>r\<bar> < 2 ^ 1000 \<Longrightarrow> diagonal_width r = Inr (max 1 (trunc (fmul r (dec 1 10))))"
  unfolding diagonal_width_def by (rule py_int_clamped) (simp_all add: dec_unit)

lemma dot_r_ok: "\<bar>r\<bar> < 2 ^ 1000 \<Longrightarrow> dot_r r = Inr (max 1 (trunc (fmul r (dec 1 10))))"
  unfolding dot_r_def by (rule py_int_clamped) (simp_all add: dec_unit)

lemma fhalf_abs_le: "\<bar>fhalf x\<bar> \<le> \<bar>x\<bar>"
  using fl_abs_le [of "x / 2"] by (simp add: fhalf_def)

lemma dot_to_float_ok:
  assumes "\<bar>r\<bar> < 2 ^ 900" and "\<bar>c\<bar> \<le> 1"
  shows "to_float (max 1 (trunc (fmul r c))) = Inr (fl (of_int (max 1 (trunc (fmul r c)))))"
proof -
  have r: "\<bar>r\<bar> < 2 ^ 1010" using assms(1) by simp
  have "\<bar>of_int (trunc (fmul r c)) :: rat\<bar> \<le> 2 * \<bar>r\<bar>"
    by (rule py_int_fmul_ok(2) [OF r assms(2)])
  also have "\<dots> < 2 ^ 901" using assms(1) by simp
  finally have "(of_int \<bar>trunc (fmul r c)\<bar> :: rat) < of_int (2 ^ 901)" by simp
  then have "\<bar>trunc (fmul r c)\<bar> < 2 ^ 901" by (simp only: of_int_less_iff)
  then have "\<bar>max 1 (trunc (fmul r c))\<bar> < 2 ^ 1000" by simp
  then show ?thesis by (rule to_float_ok(1))
qed

lemma draw_app_logo_ok:
  assumes "\<bar>logo_size\<bar> < 2 ^ 900"
  shows "\<exists>b1 b2 b3 p b4 b5.
     draw_app_logo d cx cy logo_size =
       Inr (d @
         [RoundedRectangle b1 (max 1 (trunc (fmul (fhalf logo_size) (dec 25 100)))) (Some LOGO_BG),
          Rectangle b2 None (Some LOGO_SQUARE)
            (Some (max 1 (trunc (fmul (fhalf logo_size) (dec 12 100))))),
          Ellipse b3 None (Some LOGO_CIRCLE)
            (Some (max 1 (trunc (fmul (fhalf logo_size) (dec 12 100))))),
          Line p (Some LOGO_LINE) (Some (max 1 (trunc (fmul (fhalf logo_size) (dec 1 10))))),
          Ellipse b4 (Some LOGO_DOT) None None,
          Ellipse b5 (Some LOGO_DOT) None None])"
proof -
  define r where "r = fhalf logo_size"
  have r9: "\<bar>r\<bar> < 2 ^ 900"
    using fhalf_abs_le [of logo_size] assms by (simp add: r_def)
  then have r: "\<bar>r\<bar> < 2 ^ 1000" by simp
  have c: "\<bar>dec 1 10\<bar> \<le> 1" by (simp add: dec_unit)
  show ?thesis
    unfolding draw_app_logo_def r_def [symmetric] Let_def
    by (simp add: logo_radius_ok [OF r] line_w_ok [OF r] diagonal_width_ok [OF r] dot_r_ok [OF r]
        dot_to_float_ok [OF r9 c] bindr_def)
qed

section \<open>Frames\<close>

lemma clamped_ok:
  assumes "\<bar>n\<bar> < 2 ^ 1000" and "\<bar>c\<bar> \<le> 1" and "0 \<le> lo"
  shows "\<exists>v. bindr (scaled n c) (\<lambda>v. Inr (max lo v)) = Inr v \<and> lo \<le> v \<and> v \<le> 4 * \<bar>n\<bar> + lo"
proof -
  obtain m where m: "scaled n c = Inr m" "\<bar>m\<bar> \<le> 4 * \<bar>n\<bar>"
    using scaled_ok [OF assms(1,2)] by blast
  have "max lo m \<le> 4 * \<bar>n\<bar> + lo" using m(2) assms(3) by simp
  then show ?thesis by (simp add: m(1) bindr_def)
qed

lemma label_height_ok:
  assumes "\<bar>s\<bar> < 2 ^ 1000"
  shows "\<exists>v. label_height s = Inr v \<and> 4 \<le> v \<and> v \<le> 4 * \<bar>s\<bar> + 4"
  unfolding label_height_def by (rule clamped_ok [OF assms]) (simp_all add: dec_unit)

lemma label_margin_ok:
  assumes "\<bar>s\<bar> < 2 ^ 1000"
  shows "\<exists>v. label_margin s = Inr v \<and> 0 \<le> v \<and> v \<le> 4 * \<bar>s\<bar> + 0"
  unfolding label_margin_def by (rule clamped_ok [OF assms]) (simp_all add: dec_unit)

lemma font_size_ok:
  assumes "\<bar>lh\<bar> < 2 ^ 1000"
  shows "\<exists>v. font_size lh = Inr v \<and> 6 \<le> v \<and> v \<le> 4 * \<bar>lh\<bar> + 6"
  unfolding font_size_def by (rule clamped_ok [OF assms]) (simp_all add: dec_unit)

lemma draw_extension_label_ok:
  assumes s: "\<bar>s\<bar> < 2 ^ 900" and p: "\<bar>pl + pr\<bar> < 2 ^ 1000" "\<bar>pb\<bar> < 2 ^ 900"
    and c: "colors ''label_bg'' = Some bg" "colors ''label_text'' = Some fg"
  shows "\<exists>lh lm fs pos.
     label_height s = Inr lh \<and> label_margin s = Inr lm \<and> font_size lh = Inr fs \<and>
     draw_extension_label e d t pl pr pb s colors =
       Inr (d @
         [Rectangle (of_int (pl + lm), of_int (pb - lh), of_int (pr - lm), of_int (pb - lm))
            (Some bg) None None,
          Text pos t (Some fg) (resolve_font e fs)])"
proof -
  have s': "\<bar>s\<bar> < 2 ^ 1000" using s by simp
  obtain lh where lh: "label_height s = Inr lh" "4 \<le> lh" "lh \<le> 4 * \<bar>s\<bar> + 4"
    using label_height_ok [OF s'] by blast
  obtain lm where lm: "label_margin s = Inr lm" "0 \<le> lm" "lm \<le> 4 * \<bar>s\<bar> + 0"
    using label_margin_ok [OF s'] by blast
  have lhb: "\<bar>lh\<bar> < 2 ^ 1000" using lh(2,3) s by simp
  obtain fs where fs: "font_size lh = Inr fs"
    using font_size_ok [OF lhb] by blast
  have "\<bar>lh - lm\<bar> < 2 ^ 1000" using lh(2,3) lm(2,3) s by simp
  then have av: "to_float (lh - lm) = Inr (fl (of_int (lh - lm)))"
    by (rule to_float_ok(1))
  have "\<bar>pb - lh\<bar> < 2 ^ 1000" using lh(2,3) s p(2) by simp
  then have tp: "to_float (pb - lh) = Inr (fl (of_int (pb - lh)))"
    by (rule to_float_ok(1))
  have mid: "int_truediv2 (pl + pr) = Inr (fl (of_int (pl + pr) / 2))"
    using p(1) by (rule int_truediv2_ok)
  obtain b0 b1 b2 b3 where bb: "textbbox e (resolve_font e fs) t = (b0, b1, b2, b3)"
    by (cases "textbbox e (resolve_font e fs) t") auto
  have "draw_extension_label e d t pl pr pb s colors =
       Inr (d @
         [Rectangle (of_int (pl + lm), of_int (pb - lh), of_int (pr - lm), of_int (pb - lm))
            (Some bg) None None,
          Text (fsub (fl (of_int (pl + pr) / 2)) (fhalf (fsub b2 b0)),
                fsub (fadd (fl (of_int (pb - lh))) (fhalf (fsub (fl (of_int (lh - lm))) (fsub b3 b1)))) b1)
            t (Some fg) (resolve_font e fs)])"
    unfolding draw_extension_label_def
    by (simp only: lh(1) lm(1) fs av tp mid bb getitem_def c bindr_def sum.case option.case
        Let_def prod.case append_assoc append.simps)
  with lh(1) lm(1) fs show ?thesis by blast
qed

lemma upper_o2d: "upper ''o2d'' = ''O2D''"
  by code_simp

lemma upper_dxf: "upper ''dxf'' = ''DXF''"
  by code_simp

lemma draw_document_page_append:
  "draw_document_page d s fr =
     bindr (draw_document_page [] s fr) (\<lambda>(ops, g). Inr (d @ ops, g))"
  by (simp add: draw_document_page_def bindr_def Let_def split: sum.splits)

lemma draw_accent_bar_append:
  "draw_accent_bar d pl pt fd s colors =
     bindr (draw_accent_bar [] pl pt fd s colors) (\<lambda>ops. Inr (d @ ops))"
  by (simp add: draw_accent_bar_def bindr_def split: sum.splits)

lemma draw_app_logo_append:
  "draw_app_logo d cx cy ls = bindr (draw_app_logo [] cx cy ls) (\<lambda>ops. Inr (d @ ops))"
  by (simp add: draw_app_logo_def bindr_def Let_def split: sum.splits)

lemma draw_extension_label_append:
  "draw_extension_label e d t pl pr pb s colors =
     bindr (draw_extension_label e [] t pl pr pb s colors) (\<lambda>ops. Inr (d @ ops))"
  by (simp add: draw_extension_label_def bindr_def Let_def split: sum.splits prod.splits)

lemma fmul_abs_le:
  assumes "\<bar>c\<bar> \<le> 1"
  shows "\<bar>fmul x c\<bar> \<le> 2 * \<bar>x\<bar>"
proof -
  have "\<bar>x * c\<bar> \<le> \<bar>x\<bar>"
    using assms by (simp add: abs_mult mult_left_le)
  with fl_abs_le [of "x * c"] show ?thesis by (simp add: fmul_def)
qed

text \<open>Every frame is the concatenation of what the renderers draw, in the order of the calls.\<close>

lemma render_size_parts:
  assumes s: "0 \<le> s" "s < 2 ^ 31"
    and c: "colors ''accent'' = Some a" "colors ''label_bg'' = Some bg"
           "colors ''label_text'' = Some fg"
  shows "\<exists>page pl pt pr pb f acc logo lab top bottom cy cx ls.
     draw_document_page [] s (dec 22 100) = Inr (page, pl, pt, pr, pb, f) \<and>
     draw_accent_bar [] pl pt f s colors = Inr acc \<and>
     logo_area pl pt pr pb f s = Inr (top, bottom, cy, cx, ls) \<and>
     draw_app_logo [] cx cy ls = Inr logo \<and>
     draw_extension_label e [] (if s \<le> 16 then upper ext else ''.'' @ upper ext) pl pr pb s colors =
       Inr lab \<and>
     render_size e ext colors s =
       Inr \<lparr>img_mode = ''RGBA'', img_size = (s, s), img_color = (0, 0, 0, 0),
            img_draw = page @ (if 32 \<le> s then acc @ logo else []) @ lab\<rparr>"
proof -
  define m where "m = max 1 (8 * s div 100)"
  define f where "f = max 2 (22 * s div 100)"
  define r where "r = s - m - 1"
  define ltext where "ltext = (if s \<le> 16 then upper ext else ''.'' @ upper ext)"
  obtain page where pg: "draw_document_page [] s (dec 22 100) = Inr (page, m, m, r, r, f)"
    using draw_document_page_exact [OF s, of "[]"] unfolding Let_def m_def f_def r_def by blast
  have "0 \<le> 8 * s div 100" "8 * s div 100 < 2 ^ 31" "0 \<le> 22 * s div 100" "22 * s div 100 < 2 ^ 31"
    using s by simp_all
  then have mb: "1 \<le> m" "m \<le> 2 ^ 31" and fb: "2 \<le> f" "f \<le> 2 ^ 31"
    unfolding m_def f_def by simp_all
  have rb: "\<bar>r\<bar> \<le> 2 ^ 32"
    using mb s unfolding r_def by simp
  have m53: "\<bar>m\<bar> < 2 ^ 53" using mb by simp
  have m40: "\<bar>m\<bar> < 2 ^ 40" using mb by simp
  have r40: "\<bar>r\<bar> < 2 ^ 40" using rb by simp
  have f40: "\<bar>f\<bar> < 2 ^ 40" using fb by simp
  obtain acc where acc: "draw_accent_bar [] m m f s colors = Inr acc"
    using draw_accent_bar_exact [where colors = colors and a = a and d = "[]" and pt = m, OF s m53 c(1)]
    by simp
  define ka where "ka = max 1 (4 * s div 100)"
  define kb where "kb = max 4 (20 * s div 100)"
  define top where "top = m + f + ka"
  define bottom where "bottom = r - kb"
  define cy :: rat where "cy = of_int (top + bottom) / 2"
  define cx :: rat where "cx = of_int (m + r) / 2"
  define ls where "ls = min (fmul (of_int (r - m)) (dec 55 100))
                          (fmul (of_int (bottom - top)) (dec 85 100))"
  have la: "logo_area m m r r f s = Inr (top, bottom, cy, cx, ls)"
    using logo_area_exact [OF s m40 m40 r40 r40 f40]
    unfolding Let_def top_def bottom_def cy_def cx_def ls_def ka_def kb_def by simp
  have "0 \<le> 4 * s div 100" "4 * s div 100 < 2 ^ 31" "0 \<le> 20 * s div 100" "20 * s div 100 < 2 ^ 31"
    using s by simp_all
  then have k: "1 \<le> ka" "ka \<le> 2 ^ 31" "4 \<le> kb" "kb \<le> 2 ^ 31"
    unfolding ka_def kb_def by simp_all
  have tb: "\<bar>bottom - top\<bar> \<le> 2 ^ 35"
    using mb fb rb k unfolding top_def bottom_def by simp
  have w: "\<bar>r - m\<bar> \<le> 2 ^ 35"
    using mb rb by simp
  have "\<bar>fmul (of_int (r - m)) (dec 55 100)\<bar> \<le> 2 * \<bar>of_int (r - m)\<bar>"
    by (rule fmul_abs_le) (simp add: dec_unit)
  also have "\<dots> = of_int (2 * \<bar>r - m\<bar>)" by simp
  also have "\<dots> \<le> of_int (2 ^ 36)" using w by (simp only: of_int_le_iff) simp
  finally have l1: "\<bar>fmul (of_int (r - m)) (dec 55 100)\<bar> \<le> 2 ^ 36" by simp
  have "\<bar>fmul (of_int (bottom - top)) (dec 85 100)\<bar> \<le> 2 * \<bar>of_int (bottom - top)\<bar>"
    by (rule fmul_abs_le) (simp add: dec_unit)
  also have "\<dots> = of_int (2 * \<bar>bottom - top\<bar>)" by simp
  also have "\<dots> \<le> of_int (2 ^ 36)" using tb by (simp only: of_int_le_iff) simp
  finally have l2: "\<bar>fmul (of_int (bottom - top)) (dec 85 100)\<bar> \<le> 2 ^ 36" by simp
  have "\<bar>ls\<bar> \<le> 2 ^ 36"
    using l1 l2 unfolding ls_def min_def by simp
  then have lsb: "\<bar>ls\<bar> < 2 ^ 900" by simp
  obtain logo where logo: "draw_app_logo [] cx cy ls = Inr logo"
    using draw_app_logo_ok [OF lsb, of "[]" cx cy] by auto
  have s9: "\<bar>s\<bar> < 2 ^ 900" using s by simp
  have p1: "\<bar>m + r\<bar> < 2 ^ 1000" using mb rb by simp
  have p2: "\<bar>r\<bar> < 2 ^ 900" using rb by simp
  obtain lab where lab: "draw_extension_label e [] ltext m r r s colors = Inr lab"
    using draw_extension_label_ok [where colors = colors and bg = bg and fg = fg and e = e
        and d = "[]" and t = ltext, OF s9 p1 p2 c(2,3)]
    by auto
  have acc': "draw_accent_bar page m m f s colors = Inr (page @ acc)"
    by (simp add: draw_accent_bar_append [of page] acc bindr_def)
  have logo': "draw_app_logo d cx cy ls = Inr (d @ logo)" for d
    by (simp add: draw_app_logo_append [of d] logo bindr_def)
  have lab': "draw_extension_label e d ltext m r r s colors = Inr (d @ lab)" for d
    by (simp add: draw_extension_label_append [of e d] lab bindr_def)
  have "render_size e ext colors s =
       Inr \<lparr>img_mode = ''RGBA'', img_size = (s, s), img_color = (0, 0, 0, 0),
            img_draw = page @ (if 32 \<le> s then acc @ logo else []) @ lab\<rparr>"
    unfolding render_size_def
    by (simp add: pg acc' la logo' lab' ltext_def [symmetric] bindr_def Let_def)
  with pg acc la logo lab show ?thesis
    unfolding ltext_def by blast
qed

section \<open>The page geometry\<close>

lemma floor_rat_numeral: "\<lfloor>(numeral a :: rat) / numeral b\<rfloor> = numeral a div numeral b"
  using floor_divide_of_int_eq [of "numeral a" "numeral b", where ?'a = rat] by simp

lemma scaled_small:
  assumes "\<bar>s\<bar> < 2 ^ 53"
  shows "scaled s c = py_int (fmul (of_int s) c)"
  by (simp add: scaled_def to_float_exact [OF assms] bindr_def)

lemma fold_ratio:
  assumes "0 \<le> s" and "s < 2 ^ 31"
  shows "fold' s fr =
     (if is_inf (fmul (of_int s) fr) then Inl OverflowError
      else Inr (max 2 (trunc (fmul (of_int s) fr))))"
proof -
  have "\<bar>s\<bar> < 2 ^ 53" using assms by simp
  then show ?thesis
    by (simp add: fold'_def scaled_small py_int_def bindr_def)
qed

lemma fmul_small_finite:
  assumes "0 \<le> s" and "s < 2 ^ 31" and "\<bar>fr\<bar> \<le> 1"
  shows "\<not> is_inf (fmul (of_int s) fr)"
proof -
  have "(of_int s :: rat) < 2 ^ 31"
    using assms(2) by (metis of_int_less_iff of_int_numeral of_int_power)
  then have s: "\<bar>of_int s :: rat\<bar> < 2 ^ 31" using assms(1) by simp
  have "\<bar>fmul (of_int s) fr\<bar> \<le> 2 * \<bar>of_int s\<bar>"
    by (rule fmul_abs_le [OF assms(3)])
  also have "\<dots> < 2 ^ 1024" using s by simp
  finally show ?thesis by (simp add: is_inf_iff)
qed

text \<open>What the page renderer returns at any fold ratio, for the sizes below \<open>2 ^ 31\<close>.\<close>

lemma draw_document_page_ratio:
  assumes "0 \<le> s" and "s < 2 ^ 31"
  shows "draw_document_page d s fr =
     (if is_inf (fmul (of_int s) fr) then Inl OverflowError
      else
        let m = max 1 (8 * s div 100); f = max 2 (trunc (fmul (of_int s) fr));
            so = max 1 (2 * s div 100); r = s - m - 1
        in Inr (d @
                (if 32 \<le> s then
                   [Polygon
                      [(of_int (m + so), of_int (m + f + so)),
                       (of_int (r - f + so), of_int (m + so)),
                       (of_int (r + so), of_int (m + f + so)),
                       (of_int (r + so), of_int (r + so)),
                       (of_int (m + so), of_int (r + so))]
                      (Some (180, 180, 180)) None]
                 else []) @
                [Polygon
                   [(of_int m, of_int m), (of_int (r - f), of_int m), (of_int r, of_int (m + f)),
                    (of_int r, of_int r), (of_int m, of_int r)]
                   (Some (255, 255, 255)) (Some (200, 200, 200)),
                 Polygon
                   [(of_int (r - f), of_int m), (of_int r, of_int (m + f)),
                    (of_int (r - f), of_int (m + f))]
                   (Some (230, 230, 235)) (Some (200, 200, 200))],
              m, m, r, r, f))"
  by (simp add: draw_document_page_def margin_exact [OF assms] fold_ratio [OF assms]
      shadow_offset_exact [OF assms] bindr_def Let_def)

lemma page_16:
  "draw_document_page [] 16 (dec 22 100) =
     Inr ([Polygon [(1, 1), (11, 1), (14, 4), (14, 14), (1, 14)]
             (Some (255, 255, 255)) (Some (200, 200, 200)),
           Polygon [(11, 1), (14, 4), (11, 4)] (Some (230, 230, 235)) (Some (200, 200, 200))],
          1, 1, 14, 14, 3)"
  using draw_document_page_exact [of 16 "[]"] by simp

lemma page_32:
  "draw_document_page [] 32 (dec 22 100) =
     Inr ([Polygon [(3, 10), (23, 3), (30, 10), (30, 30), (3, 30)] (Some (180, 180, 180)) None,
           Polygon [(2, 2), (22, 2), (29, 9), (29, 29), (2, 29)]
             (Some (255, 255, 255)) (Some (200, 200, 200)),
           Polygon [(22, 2), (29, 9), (22, 9)] (Some (230, 230, 235)) (Some (200, 200, 200))],
          2, 2, 29, 29, 7)"
  using draw_document_page_exact [of 32 "[]"] by simp

text \<open>
  C6. For every canvas size \<open>s \<ge> 16\<close>, whatever page geometry \<^verbatim>\<open>draw_document_page\<close> returns
  has margin (the returned \<open>page_left\<close>) at least 1, fold at least 2, \<open>page_right > page_left\<close>
  and \<open>page_bottom > page_top\<close>. (The call raises OverflowError when the size does not
  convert to a float or its product with the fold ratio is infinite, and returns otherwise;
  \<open>draw_document_page_ratio\<close> gives what it returns for sizes below \<open>2 ^ 31\<close>.)
\<close>

theorem page_geometry_invariant:
  assumes "draw_document_page draw s fr = Inr (draw', pl, pt, pr, pb, f)" and "16 \<le> s"
  shows "margin s = Inr pl \<and> 1 \<le> pl \<and> fold' s fr = Inr f \<and> 2 \<le> f \<and> pl < pr \<and> pt < pb"
proof -
  have g: "margin s = Inr pl" "fold' s fr = Inr f" "pt = pl" "pr = s - pl - 1" "pb = s - pl - 1"
    using draw_document_page_result [OF assms(1)] by auto
  obtain v where v: "scaled s (dec 8 100) = Inr v" and pl: "pl = max 1 v"
    using margin_result [OF g(1)] by blast
  obtain k where f: "f = max 2 k"
    using fold_result [OF g(2)] by blast
  have "1000 * v \<le> 82 * s"
    using margin_bound(2) [OF v] assms(2) by simp
  with assms(2) show ?thesis
    by (simp add: g pl f max_def)
qed

theorem page_geometry_invariant_witness:
  "draw_document_page [] 16 (dec 22 100) =
     Inr ([Polygon [(1, 1), (11, 1), (14, 4), (14, 14), (1, 14)]
             (Some (255, 255, 255)) (Some (200, 200, 200)),
           Polygon [(11, 1), (14, 4), (11, 4)] (Some (230, 230, 235)) (Some (200, 200, 200))],
          1, 1, 14, 14, 3)
   \<and> (16::int) \<le> 16
   \<and> margin 16 = Inr 1 \<and> (1::int) \<le> 1 \<and> fold' 16 (dec 22 100) = Inr 3 \<and> (2::int) \<le> 3
   \<and> (1::int) < 14"
  using page_geometry_invariant [OF page_16] page_16 by simp

text \<open>
  C10. The page rectangle that \<^verbatim>\<open>draw_document_page\<close> returns is a square placed
  symmetrically in the canvas: \<open>page_left = page_top = margin\<close> and
  \<open>page_right = page_bottom = s - margin - 1\<close>, so its width equals its height.
\<close>

theorem page_is_square:
  assumes "draw_document_page draw s fr = Inr (draw', pl, pt, pr, pb, f)"
  shows "\<exists>m. margin s = Inr m \<and> pl = m \<and> pt = m \<and> pr = s - m - 1 \<and> pb = s - m - 1 \<and>
           pr - pl = pb - pt \<and> (s - 1) - pr = pl \<and> (s - 1) - pb = pt"
  using draw_document_page_result [OF assms] by auto

theorem page_is_square_witness:
  "draw_document_page [] 32 (dec 22 100) =
     Inr ([Polygon [(3, 10), (23, 3), (30, 10), (30, 30), (3, 30)] (Some (180, 180, 180)) None,
           Polygon [(2, 2), (22, 2), (29, 9), (29, 29), (2, 29)]
             (Some (255, 255, 255)) (Some (200, 200, 200)),
           Polygon [(22, 2), (29, 9), (22, 9)] (Some (230, 230, 235)) (Some (200, 200, 200))],
          2, 2, 29, 29, 7)
   \<and> margin 32 = Inr 2 \<and> (29::int) = 32 - 2 - 1 \<and> (29::int) - 2 = 29 - 2"
  using page_is_square [OF page_32] page_32 by simp

text \<open>
  C2, as stated: margin and fold are rounded to the nearest integer. At \<open>s = 32\<close> the code
  computes margin 2 where rounding \<open>2.56\<close> gives 3, and at \<open>s = 16\<close> it computes fold 3
  where rounding \<open>3.52\<close> gives 4.
\<close>

theorem margin_rounds_counterexample:
  "margin 32 = Inr 2 \<and> spec_margin 32 = 3 \<and>
   fold' 16 (dec 22 100) = Inr 3 \<and> spec_fold 16 (22 / 100) = 4 \<and> spec_fold 16 (dec 22 100) = 4"
proof -
  have "margin 32 = Inr 2" using margin_exact [of 32] by simp
  moreover have "fold' 16 (dec 22 100) = Inr 3" using fold_exact [of 16] by simp
  moreover have "spec_margin 32 = 3" by (simp add: spec_margin_def round_def floor_rat_numeral)
  moreover have "spec_fold 16 (22 / 100) = 4" by (simp add: spec_fold_def round_def floor_rat_numeral)
  moreover have "spec_fold 16 (dec 22 100) = 4" by (simp add: spec_fold_def round_def dec_22_100 floor_rat_numeral)
  ultimately show ?thesis by simp
qed

text \<open>
  C2, amended: margin and fold are truncated toward zero, not rounded. For every canvas
  size \<open>0 < s < 2 ^ 31\<close> and every fold ratio \<open>fr\<close>, \<^verbatim>\<open>draw_document_page\<close> returns the
  margin \<open>max 1 \<lfloor>8 s / 100\<rfloor>\<close> and the fold \<open>max 2\<close> of the truncated binary64 product of
  size and ratio; it returns whenever that product is finite, in particular for every
  ratio of magnitude at most 1, and raises OverflowError otherwise. At the default ratio
  \<^verbatim>\<open>0.22\<close> the fold is \<open>max 2 \<lfloor>22 s / 100\<rfloor>\<close>.
\<close>

theorem margin_and_fold_truncate:
  assumes "0 < s" and "s < 2 ^ 31"
  shows "(is_inf (fmul (of_int s) fr) \<longrightarrow> draw_document_page draw s fr = Inl OverflowError)
       \<and> (\<not> is_inf (fmul (of_int s) fr) \<longrightarrow>
            (\<exists>draw'. draw_document_page draw s fr =
               Inr (draw', max 1 (8 * s div 100), max 1 (8 * s div 100),
                    s - max 1 (8 * s div 100) - 1, s - max 1 (8 * s div 100) - 1,
                    max 2 (trunc (fmul (of_int s) fr)))))
       \<and> (\<bar>fr\<bar> \<le> 1 \<longrightarrow> \<not> is_inf (fmul (of_int s) fr))
       \<and> margin s = Inr (max 1 (8 * s div 100))
       \<and> (\<not> is_inf (fmul (of_int s) fr) \<longrightarrow>
            fold' s fr = Inr (max 2 (trunc (fmul (of_int s) fr))))
       \<and> max 2 (trunc (fmul (of_int s) (dec 22 100))) = max 2 (22 * s div 100)"
proof -
  have s0: "0 \<le> s" using assms(1) by simp
  have a: "margin s = Inr (max 1 (8 * s div 100))"
    by (rule margin_exact [OF s0 assms(2)])
  have b: "draw_document_page draw s fr = Inl OverflowError" if "is_inf (fmul (of_int s) fr)"
    using draw_document_page_ratio [OF s0 assms(2), of draw fr] that by simp
  have c: "\<exists>draw'. draw_document_page draw s fr =
               Inr (draw', max 1 (8 * s div 100), max 1 (8 * s div 100),
                    s - max 1 (8 * s div 100) - 1, s - max 1 (8 * s div 100) - 1,
                    max 2 (trunc (fmul (of_int s) fr)))"
    if "\<not> is_inf (fmul (of_int s) fr)"
    using draw_document_page_ratio [OF s0 assms(2), of draw fr] that
    unfolding Let_def by auto
  have d: "\<not> is_inf (fmul (of_int s) fr)" if "\<bar>fr\<bar> \<le> 1"
    by (rule fmul_small_finite [OF s0 assms(2) that])
  have e: "fold' s fr = Inr (max 2 (trunc (fmul (of_int s) fr)))"
    if "\<not> is_inf (fmul (of_int s) fr)"
    using fold_ratio [OF s0 assms(2), of fr] that by simp
  have f: "max 2 (trunc (fmul (of_int s) (dec 22 100))) = max 2 (22 * s div 100)"
  proof -
    have "\<bar>dec 22 100\<bar> \<le> 1" by (simp add: dec_unit)
    then have "\<not> is_inf (fmul (of_int s) (dec 22 100))"
      by (rule fmul_small_finite [OF s0 assms(2)])
    then have "fold' s (dec 22 100) = Inr (max 2 (trunc (fmul (of_int s) (dec 22 100))))"
      using fold_ratio [OF s0 assms(2), of "dec 22 100"] by simp
    with fold_exact [OF s0 assms(2)] show ?thesis by simp
  qed
  from a b c d e f show ?thesis by blast
qed

theorem margin_and_fold_truncate_witness:
  "(0::int) < 100 \<and> (100::int) < 2 ^ 31 \<and> \<bar>1 / 2 :: rat\<bar> \<le> 1 \<and>
   \<not> is_inf (fmul (of_int 100) (1 / 2)) \<and>
   (\<exists>draw'. draw_document_page [] 100 (1 / 2) = Inr (draw', 8, 8, 91, 91, 50)) \<and>
   margin 100 = Inr 8 \<and> fold' 100 (1 / 2) = Inr 50 \<and>
   max 2 (trunc (fmul (of_int 100) (dec 22 100))) = (22::int)"
proof -
  have h: "(0::int) < 100" "(100::int) < 2 ^ 31" by simp_all
  have v: "fmul 100 (1 / 2) = 50"
    using fl_of_int [of 50] by (simp add: fmul_def)
  have t: "trunc 50 = 50" by (simp add: trunc_def)
  from margin_and_fold_truncate [OF h, of "1 / 2" "[]"]
  show ?thesis
    by (simp add: v t)
qed

section \<open>Offsets and the logo area\<close>

lemma dec_close:
  assumes "0 \<le> a" and "a \<le> b" and "0 < b"
  shows "\<bar>dec a b - of_int a / of_int b\<bar> \<le> 1 / 2 ^ 53"
proof -
  have q0: "(0::rat) \<le> of_int a / of_int b" using assms(1,3) by simp
  have "(of_int a :: rat) \<le> of_int b" using assms(2) by (simp only: of_int_le_iff)
  then have q1: "(of_int a :: rat) / of_int b \<le> 1" using assms(3) by (simp add: divide_le_eq)
  have "\<bar>dec a b - of_int a / of_int b\<bar> \<le> \<bar>of_int a / of_int b :: rat\<bar> / 2 ^ 53"
    unfolding dec_def by (rule fl_rel_err)
  also have "\<dots> \<le> 1 / 2 ^ 53"
    using q0 q1 by (simp add: divide_right_mono)
  finally show ?thesis .
qed

lemma fmul_dec_close:
  assumes "0 \<le> a" and "a \<le> b" and "0 < b"
  shows "\<bar>fmul x (dec a b) - x * (of_int a / of_int b)\<bar> \<le> \<bar>x\<bar> / 2 ^ 52"
proof -
  define c where "c = dec a b"
  define q :: rat where "q = of_int a / of_int b"
  have c1: "\<bar>c\<bar> \<le> 1" unfolding c_def by (rule dec_unit [OF assms])
  have cq: "\<bar>c - q\<bar> \<le> 1 / 2 ^ 53" unfolding c_def q_def by (rule dec_close [OF assms])
  have xc: "\<bar>x * c\<bar> \<le> \<bar>x\<bar>"
    using c1 by (simp add: abs_mult mult_left_le)
  have "\<bar>fl (x * c) - x * c\<bar> \<le> \<bar>x * c\<bar> / 2 ^ 53"
    by (rule fl_rel_err)
  also have "\<dots> \<le> \<bar>x\<bar> / 2 ^ 53"
    using xc by (rule divide_right_mono) simp
  finally have 1: "\<bar>fl (x * c) - x * c\<bar> \<le> \<bar>x\<bar> / 2 ^ 53" .
  have "\<bar>x * c - x * q\<bar> = \<bar>x\<bar> * \<bar>c - q\<bar>"
    by (simp add: abs_mult right_diff_distrib [symmetric])
  also have "\<dots> \<le> \<bar>x\<bar> * (1 / 2 ^ 53)"
    using cq by (intro mult_left_mono) simp_all
  finally have 2: "\<bar>x * c - x * q\<bar> \<le> \<bar>x\<bar> / 2 ^ 53" by simp
  have "\<bar>fl (x * c) - x * q\<bar> \<le> \<bar>fl (x * c) - x * c\<bar> + \<bar>x * c - x * q\<bar>"
    by simp
  also have "\<dots> \<le> \<bar>x\<bar> / 2 ^ 53 + \<bar>x\<bar> / 2 ^ 53"
    using 1 2 by (rule add_mono)
  also have "\<dots> = \<bar>x\<bar> / 2 ^ 52" by simp
  finally show ?thesis by (simp add: fmul_def c_def q_def)
qed

lemma min_close:
  fixes A B a b e :: rat
  assumes "\<bar>A - a\<bar> \<le> e" and "\<bar>B - b\<bar> \<le> e"
  shows "\<bar>min A B - min a b\<bar> \<le> e"
  using assms unfolding min_def by (auto simp: abs_if split: if_splits)

lemma page_logo_area:
  fixes s m f r tp bt :: int and ls :: rat
  defines "m \<equiv> max 1 (8 * s div 100)"
  defines "f \<equiv> max 2 (22 * s div 100)"
  defines "r \<equiv> s - m - 1"
  defines "tp \<equiv> m + f + max 1 (4 * s div 100)"
  defines "bt \<equiv> r - max 4 (20 * s div 100)"
  defines "ls \<equiv> min (fmul (of_int (r - m)) (dec 55 100)) (fmul (of_int (bt - tp)) (dec 85 100))"
  assumes s: "0 \<le> s" "s < 2 ^ 31"
  shows "\<exists>page. draw_document_page [] s (dec 22 100) = Inr (page, m, m, r, r, f)"
    and "logo_area m m r r f s = Inr (tp, bt, of_int (tp + bt) / 2, of_int (m + r) / 2, ls)"
    and "\<bar>ls\<bar> \<le> 2 ^ 36"
    and "\<bar>ls - min (55 / 100 * of_int (r - m)) (85 / 100 * of_int (bt - tp))\<bar> \<le> 1 / 2 ^ 16"
proof -
  show "\<exists>page. draw_document_page [] s (dec 22 100) = Inr (page, m, m, r, r, f)"
    using draw_document_page_exact [OF s, of "[]"] unfolding Let_def m_def f_def r_def by blast
  have "0 \<le> 8 * s div 100" "8 * s div 100 < 2 ^ 31" "0 \<le> 22 * s div 100" "22 * s div 100 < 2 ^ 31"
    using s by simp_all
  then have mb: "1 \<le> m" "m \<le> 2 ^ 31" and fb: "2 \<le> f" "f \<le> 2 ^ 31"
    unfolding m_def f_def by simp_all
  have rb: "\<bar>r\<bar> \<le> 2 ^ 32"
    using mb s unfolding r_def by simp
  have m40: "\<bar>m\<bar> < 2 ^ 40" using mb by simp
  have r40: "\<bar>r\<bar> < 2 ^ 40" using rb by simp
  have f40: "\<bar>f\<bar> < 2 ^ 40" using fb by simp
  show "logo_area m m r r f s = Inr (tp, bt, of_int (tp + bt) / 2, of_int (m + r) / 2, ls)"
    using logo_area_exact [OF s m40 m40 r40 r40 f40]
    unfolding Let_def tp_def bt_def ls_def by simp
  define ka where "ka = max 1 (4 * s div 100)"
  define kb where "kb = max 4 (20 * s div 100)"
  have "0 \<le> 4 * s div 100" "4 * s div 100 < 2 ^ 31" "0 \<le> 20 * s div 100" "20 * s div 100 < 2 ^ 31"
    using s by simp_all
  then have k: "1 \<le> ka" "ka \<le> 2 ^ 31" "4 \<le> kb" "kb \<le> 2 ^ 31"
    unfolding ka_def kb_def by simp_all
  have tpe: "tp = m + f + ka" and bte: "bt = r - kb"
    by (simp_all only: tp_def bt_def ka_def kb_def)
  have tb: "\<bar>bt - tp\<bar> \<le> 2 ^ 35"
    using mb fb rb k unfolding tpe bte by simp
  have w: "\<bar>r - m\<bar> \<le> 2 ^ 35"
    using mb rb by simp
  have w': "\<bar>of_int (r - m) :: rat\<bar> \<le> 2 ^ 35"
  proof -
    have "(of_int \<bar>r - m\<bar> :: rat) \<le> of_int (2 ^ 35)" using w by (simp only: of_int_le_iff)
    then show ?thesis by simp
  qed
  have h': "\<bar>of_int (bt - tp) :: rat\<bar> \<le> 2 ^ 35"
  proof -
    have "(of_int \<bar>bt - tp\<bar> :: rat) \<le> of_int (2 ^ 35)" using tb by (simp only: of_int_le_iff)
    then show ?thesis by simp
  qed
  have "\<bar>fmul (of_int (r - m)) (dec 55 100)\<bar> \<le> 2 * \<bar>of_int (r - m)\<bar>"
    by (rule fmul_abs_le) (simp add: dec_unit)
  with w' have l1: "\<bar>fmul (of_int (r - m)) (dec 55 100)\<bar> \<le> 2 ^ 36" by simp
  have "\<bar>fmul (of_int (bt - tp)) (dec 85 100)\<bar> \<le> 2 * \<bar>of_int (bt - tp)\<bar>"
    by (rule fmul_abs_le) (simp add: dec_unit)
  with h' have l2: "\<bar>fmul (of_int (bt - tp)) (dec 85 100)\<bar> \<le> 2 ^ 36" by simp
  show "\<bar>ls\<bar> \<le> 2 ^ 36"
    using l1 l2 unfolding ls_def min_def by simp
  have "\<bar>fmul (of_int (r - m)) (dec 55 100) - of_int (r - m) * (of_int 55 / of_int 100)\<bar>
          \<le> \<bar>of_int (r - m)\<bar> / 2 ^ 52"
    by (rule fmul_dec_close) simp_all
  also have "\<dots> \<le> 2 ^ 35 / 2 ^ 52" using w' by (rule divide_right_mono) simp
  finally have c1: "\<bar>fmul (of_int (r - m)) (dec 55 100) - 55 / 100 * of_int (r - m)\<bar> \<le> 1 / 2 ^ 16"
    by (simp add: mult.commute)
  have "\<bar>fmul (of_int (bt - tp)) (dec 85 100) - of_int (bt - tp) * (of_int 85 / of_int 100)\<bar>
          \<le> \<bar>of_int (bt - tp)\<bar> / 2 ^ 52"
    by (rule fmul_dec_close) simp_all
  also have "\<dots> \<le> 2 ^ 35 / 2 ^ 52" using h' by (rule divide_right_mono) simp
  finally have c2: "\<bar>fmul (of_int (bt - tp)) (dec 85 100) - 85 / 100 * of_int (bt - tp)\<bar>
      \<le> 1 / 2 ^ 16"
    by (simp add: mult.commute)
  show "\<bar>ls - min (55 / 100 * of_int (r - m)) (85 / 100 * of_int (bt - tp))\<bar> \<le> 1 / 2 ^ 16"
    unfolding ls_def by (rule min_close [OF c1 c2])
qed


lemma offsets_small:
  assumes s: "0 \<le> s" "s < 2 ^ 31" and l: "18 * s mod 100 \<noteq> 0"
  shows "(\<exists>m f so lh bh lm bm.
            margin s = Inr m \<and> m = max 1 (8 * s div 100) \<and> 1 \<le> m \<and>
            fold' s (dec 22 100) = Inr f \<and> f = max 2 (22 * s div 100) \<and> 2 \<le> f \<and>
            shadow_offset s = Inr so \<and> so = max 1 (2 * s div 100) \<and> 1 \<le> so \<and>
            label_height s = Inr lh \<and> lh = max 4 (18 * s div 100) \<and> 4 \<le> lh \<and>
            bar_height s = Inr bh \<and> bh = max 1 (4 * s div 100) \<and> 1 \<le> bh \<and>
            label_margin s = Inr lm \<and> lm = max 0 (2 * s div 100) \<and> 0 \<le> lm \<and>
            bar_margin s = Inr bm \<and> bm = max 0 (2 * s div 100) \<and> 0 \<le> bm)
       \<and> (\<exists>page pl pt pr pb f tp bt cy cx ls rad lw dw dr.
            draw_document_page [] s (dec 22 100) = Inr (page, pl, pt, pr, pb, f) \<and>
            logo_area pl pt pr pb f s = Inr (tp, bt, cy, cx, ls) \<and>
            logo_radius (fhalf ls) = Inr rad \<and>
            rad = max 1 (trunc (fmul (fhalf ls) (dec 25 100))) \<and> 1 \<le> rad \<and>
            line_w (fhalf ls) = Inr lw \<and>
            lw = max 1 (trunc (fmul (fhalf ls) (dec 12 100))) \<and> 1 \<le> lw \<and>
            diagonal_width (fhalf ls) = Inr dw \<and>
            dw = max 1 (trunc (fmul (fhalf ls) (dec 1 10))) \<and> 1 \<le> dw \<and>
            dot_r (fhalf ls) = Inr dr \<and>
            dr = max 1 (trunc (fmul (fhalf ls) (dec 1 10))) \<and> 1 \<le> dr)"
proof (rule conjI)
  show "\<exists>m f so lh bh lm bm.
            margin s = Inr m \<and> m = max 1 (8 * s div 100) \<and> 1 \<le> m \<and>
            fold' s (dec 22 100) = Inr f \<and> f = max 2 (22 * s div 100) \<and> 2 \<le> f \<and>
            shadow_offset s = Inr so \<and> so = max 1 (2 * s div 100) \<and> 1 \<le> so \<and>
            label_height s = Inr lh \<and> lh = max 4 (18 * s div 100) \<and> 4 \<le> lh \<and>
            bar_height s = Inr bh \<and> bh = max 1 (4 * s div 100) \<and> 1 \<le> bh \<and>
            label_margin s = Inr lm \<and> lm = max 0 (2 * s div 100) \<and> 0 \<le> lm \<and>
            bar_margin s = Inr bm \<and> bm = max 0 (2 * s div 100) \<and> 0 \<le> bm"
    using margin_exact [OF s] fold_exact [OF s] shadow_offset_exact [OF s]
      label_height_exact [OF s l] bar_height_exact [OF s] label_margin_exact [OF s]
      bar_margin_exact [OF s]
    by simp
next
  define m where "m = max 1 (8 * s div 100)"
  define f where "f = max 2 (22 * s div 100)"
  define r where "r = s - m - 1"
  define tp where "tp = m + f + max 1 (4 * s div 100)"
  define bt where "bt = r - max 4 (20 * s div 100)"
  define ls where "ls = min (fmul (of_int (r - m)) (dec 55 100))
                          (fmul (of_int (bt - tp)) (dec 85 100))"
  obtain page where pg: "draw_document_page [] s (dec 22 100) = Inr (page, m, m, r, r, f)"
    using page_logo_area(1) [OF s] unfolding m_def f_def r_def by blast
  have la: "logo_area m m r r f s = Inr (tp, bt, of_int (tp + bt) / 2, of_int (m + r) / 2, ls)"
    using page_logo_area(2) [OF s] unfolding m_def f_def r_def tp_def bt_def ls_def .
  have "\<bar>ls\<bar> \<le> 2 ^ 36"
    using page_logo_area(3) [OF s] unfolding m_def f_def r_def tp_def bt_def ls_def .
  then have "\<bar>fhalf ls\<bar> \<le> 2 ^ 36"
    using fhalf_abs_le [of ls] by simp
  then have rr: "\<bar>fhalf ls\<bar> < 2 ^ 1000" by simp
  show "\<exists>page pl pt pr pb f tp bt cy cx ls rad lw dw dr.
            draw_document_page [] s (dec 22 100) = Inr (page, pl, pt, pr, pb, f) \<and>
            logo_area pl pt pr pb f s = Inr (tp, bt, cy, cx, ls) \<and>
            logo_radius (fhalf ls) = Inr rad \<and>
            rad = max 1 (trunc (fmul (fhalf ls) (dec 25 100))) \<and> 1 \<le> rad \<and>
            line_w (fhalf ls) = Inr lw \<and>
            lw = max 1 (trunc (fmul (fhalf ls) (dec 12 100))) \<and> 1 \<le> lw \<and>
            diagonal_width (fhalf ls) = Inr dw \<and>
            dw = max 1 (trunc (fmul (fhalf ls) (dec 1 10))) \<and> 1 \<le> dw \<and>
            dot_r (fhalf ls) = Inr dr \<and>
            dr = max 1 (trunc (fmul (fhalf ls) (dec 1 10))) \<and> 1 \<le> dr"
    using pg la logo_radius_ok [OF rr] line_w_ok [OF rr] diagonal_width_ok [OF rr] dot_r_ok [OF rr]
    by (intro exI conjI) (assumption | rule refl | simp)+
qed

lemma ICO_SIZES_small:
  assumes "s \<in> set ICO_SIZES"
  shows "0 \<le> s" and "s < 2 ^ 31" and "18 * s mod 100 \<noteq> 0"
  using assms by (auto simp: ICO_SIZES_def)

text \<open>
  C1, as stated: every offset is at least 1. The label margin of the 16-pixel canvas and
  the accent-bar margin of the 32-pixel canvas are 0: both are \<^verbatim>\<open>max(0, int(size * 0.02))\<close>.
\<close>

theorem offsets_at_least_one_counterexample:
  "16 \<in> set ICO_SIZES \<and> label_margin 16 = Inr 0 \<and> 32 \<in> set ICO_SIZES \<and> bar_margin 32 = Inr 0"
  using label_margin_exact [of 16] bar_margin_exact [of 32] by (simp add: ICO_SIZES_def)

text \<open>
  C1, amended: for every size in the list, page margin, shadow offset, accent-bar height and
  the logo's corner radius, stroke widths and dot radius are integers at least 1, the fold
  is at least 2 and the label height at least 4, each the size-proportional value
  truncated toward zero and then raised to that bound; the label margin and the accent-bar
  margin are truncated and raised to 0 only.
\<close>

theorem offsets_clamped:
  "\<forall>s\<in>set ICO_SIZES.
       (\<exists>m f so lh bh lm bm.
            margin s = Inr m \<and> m = max 1 (8 * s div 100) \<and> 1 \<le> m \<and>
            fold' s (dec 22 100) = Inr f \<and> f = max 2 (22 * s div 100) \<and> 2 \<le> f \<and>
            shadow_offset s = Inr so \<and> so = max 1 (2 * s div 100) \<and> 1 \<le> so \<and>
            label_height s = Inr lh \<and> lh = max 4 (18 * s div 100) \<and> 4 \<le> lh \<and>
            bar_height s = Inr bh \<and> bh = max 1 (4 * s div 100) \<and> 1 \<le> bh \<and>
            label_margin s = Inr lm \<and> lm = max 0 (2 * s div 100) \<and> 0 \<le> lm \<and>
            bar_margin s = Inr bm \<and> bm = max 0 (2 * s div 100) \<and> 0 \<le> bm)
       \<and> (\<exists>page pl pt pr pb f tp bt cy cx ls rad lw dw dr.
            draw_document_page [] s (dec 22 100) = Inr (page, pl, pt, pr, pb, f) \<and>
            logo_area pl pt pr pb f s = Inr (tp, bt, cy, cx, ls) \<and>
            logo_radius (fhalf ls) = Inr rad \<and>
            rad = max 1 (trunc (fmul (fhalf ls) (dec 25 100))) \<and> 1 \<le> rad \<and>
            line_w (fhalf ls) = Inr lw \<and>
            lw = max 1 (trunc (fmul (fhalf ls) (dec 12 100))) \<and> 1 \<le> lw \<and>
            diagonal_width (fhalf ls) = Inr dw \<and>
            dw = max 1 (trunc (fmul (fhalf ls) (dec 1 10))) \<and> 1 \<le> dw \<and>
            dot_r (fhalf ls) = Inr dr \<and>
            dr = max 1 (trunc (fmul (fhalf ls) (dec 1 10))) \<and> 1 \<le> dr)"
proof (rule ballI)
  fix s assume "s \<in> set ICO_SIZES"
  then have "0 \<le> s" "s < 2 ^ 31" "18 * s mod 100 \<noteq> 0"
    by (rule ICO_SIZES_small)+
  then show "(\<exists>m f so lh bh lm bm.
            margin s = Inr m \<and> m = max 1 (8 * s div 100) \<and> 1 \<le> m \<and>
            fold' s (dec 22 100) = Inr f \<and> f = max 2 (22 * s div 100) \<and> 2 \<le> f \<and>
            shadow_offset s = Inr so \<and> so = max 1 (2 * s div 100) \<and> 1 \<le> so \<and>
            label_height s = Inr lh \<and> lh = max 4 (18 * s div 100) \<and> 4 \<le> lh \<and>
            bar_height s = Inr bh \<and> bh = max 1 (4 * s div 100) \<and> 1 \<le> bh \<and>
            label_margin s = Inr lm \<and> lm = max 0 (2 * s div 100) \<and> 0 \<le> lm \<and>
            bar_margin s = Inr bm \<and> bm = max 0 (2 * s div 100) \<and> 0 \<le> bm)
       \<and> (\<exists>page pl pt pr pb f tp bt cy cx ls rad lw dw dr.
            draw_document_page [] s (dec 22 100) = Inr (page, pl, pt, pr, pb, f) \<and>
            logo_area pl pt pr pb f s = Inr (tp, bt, cy, cx, ls) \<and>
            logo_radius (fhalf ls) = Inr rad \<and>
            rad = max 1 (trunc (fmul (fhalf ls) (dec 25 100))) \<and> 1 \<le> rad \<and>
            line_w (fhalf ls) = Inr lw \<and>
            lw = max 1 (trunc (fmul (fhalf ls) (dec 12 100))) \<and> 1 \<le> lw \<and>
            diagonal_width (fhalf ls) = Inr dw \<and>
            dw = max 1 (trunc (fmul (fhalf ls) (dec 1 10))) \<and> 1 \<le> dw \<and>
            dot_r (fhalf ls) = Inr dr \<and>
            dr = max 1 (trunc (fmul (fhalf ls) (dec 1 10))) \<and> 1 \<le> dr)"
    by (rule offsets_small)
qed

theorem offsets_clamped_witness:
  "48 \<in> set ICO_SIZES \<and> margin 48 = Inr 3 \<and> fold' 48 (dec 22 100) = Inr 10 \<and>
   shadow_offset 48 = Inr 1 \<and> label_height 48 = Inr 8 \<and> bar_height 48 = Inr 1 \<and>
   label_margin 48 = Inr 0 \<and> bar_margin 48 = Inr 0"
  using offsets_clamped [THEN bspec, of 48] by (simp add: ICO_SIZES_def)

text \<open>
  C7, as stated: the logo area runs from \<open>page_top + fold + 4%\<close> of the size to
  \<open>page_bottom - max(4, 20%\<close> of the size\<open>)\<close>. On the page of the 16-pixel canvas,
  \<open>(1, 1, 14, 14)\<close> with fold 3, the code puts the top at 5, not at \<open>4.64\<close>; on the page of
  the 32-pixel canvas, \<open>(2, 2, 29, 29)\<close> with fold 7, it puts the bottom at 23, not at \<open>22.6\<close>.
\<close>

theorem logo_area_percent_counterexample:
  "logo_area 1 1 14 14 3 16 =
     Inr (5, 10, 15 / 2, 15 / 2, min (fmul 13 (dec 55 100)) (fmul 5 (dec 85 100)))
   \<and> spec_logo_area_top 1 3 16 = 116 / 25
   \<and> logo_area 2 2 29 29 7 32 =
     Inr (10, 23, 33 / 2, 31 / 2, min (fmul 27 (dec 55 100)) (fmul 13 (dec 85 100)))
   \<and> spec_logo_area_bottom 29 32 = 113 / 5"
  using logo_area_exact [of 16 1 1 14 14 3] logo_area_exact [of 32 2 2 29 29 7]
  by (simp add: spec_logo_area_top_def spec_logo_area_bottom_def)

text \<open>
  C7, amended: for every size in the list, the logo area runs from
  \<open>page_top + fold + max(1, trunc(4%\<close> of the size\<open>))\<close> to
  \<open>page_bottom - max(4, trunc(20%\<close> of the size\<open>))\<close>, both integers; its centre is the
  midpoint of these and of \<open>page_left\<close> and \<open>page_right\<close>; the logo diameter is the smaller
  of the binary64 products of the page width with \<^verbatim>\<open>0.55\<close> and of that vertical extent with
  \<^verbatim>\<open>0.85\<close>, within \<open>2 ^ - 16\<close> of the exact 55% and 85%.
\<close>

theorem logo_area_truncates:
  "\<forall>s\<in>set ICO_SIZES.
     \<exists>page pl pt pr pb f.
       draw_document_page [] s (dec 22 100) = Inr (page, pl, pt, pr, pb, f) \<and>
       (let tp = pt + f + max 1 (4 * s div 100);
            bt = pb - max 4 (20 * s div 100);
            ls = min (fmul (of_int (pr - pl)) (dec 55 100)) (fmul (of_int (bt - tp)) (dec 85 100))
        in logo_area pl pt pr pb f s =
             Inr (tp, bt, of_int (tp + bt) / 2, of_int (pl + pr) / 2, ls) \<and>
           \<bar>ls - min (55 / 100 * of_int (pr - pl)) (85 / 100 * of_int (bt - tp))\<bar> \<le> 1 / 2 ^ 16)"
proof (rule ballI)
  fix s assume "s \<in> set ICO_SIZES"
  then have s: "0 \<le> s" "s < 2 ^ 31"
    by (rule ICO_SIZES_small)+
  show "\<exists>page pl pt pr pb f.
       draw_document_page [] s (dec 22 100) = Inr (page, pl, pt, pr, pb, f) \<and>
       (let tp = pt + f + max 1 (4 * s div 100);
            bt = pb - max 4 (20 * s div 100);
            ls = min (fmul (of_int (pr - pl)) (dec 55 100)) (fmul (of_int (bt - tp)) (dec 85 100))
        in logo_area pl pt pr pb f s =
             Inr (tp, bt, of_int (tp + bt) / 2, of_int (pl + pr) / 2, ls) \<and>
           \<bar>ls - min (55 / 100 * of_int (pr - pl)) (85 / 100 * of_int (bt - tp))\<bar> \<le> 1 / 2 ^ 16)"
    using page_logo_area(1) [OF s] page_logo_area(2) [OF s] page_logo_area(4) [OF s]
    unfolding Let_def by blast
qed

theorem logo_area_truncates_witness:
  "16 \<in> set ICO_SIZES \<and>
   (\<exists>page. draw_document_page [] 16 (dec 22 100) = Inr (page, 1, 1, 14, 14, 3)) \<and>
   logo_area 1 1 14 14 3 16 =
     Inr (5, 10, 15 / 2, 15 / 2, min (fmul 13 (dec 55 100)) (fmul 5 (dec 85 100)))"
  using logo_area_truncates [THEN bspec, of 16] page_16
  by (simp add: ICO_SIZES_def Let_def)

section \<open>Frames, labels and fonts\<close>

subsection \<open>The keys of the colour scheme that are read\<close>

lemma draw_accent_bar_colors:
  assumes "c1 ''accent'' = c2 ''accent''"
  shows "draw_accent_bar d pl pt fd s c1 = draw_accent_bar d pl pt fd s c2"
  by (simp add: draw_accent_bar_def getitem_def assms)

lemma draw_extension_label_colors:
  assumes "c1 ''label_bg'' = c2 ''label_bg''" and "c1 ''label_text'' = c2 ''label_text''"
  shows "draw_extension_label e d t pl pr pb s c1 = draw_extension_label e d t pl pr pb s c2"
  by (simp add: draw_extension_label_def getitem_def assms)

lemma render_size_colors:
  assumes "c1 ''accent'' = c2 ''accent''" and "c1 ''label_bg'' = c2 ''label_bg''"
    and "c1 ''label_text'' = c2 ''label_text''"
  shows "render_size e ext c1 s = render_size e ext c2 s"
  unfolding render_size_def
  by (simp only: draw_accent_bar_colors [where ?c1.0 = c1 and ?c2.0 = c2, OF assms(1)]
      draw_extension_label_colors [where ?c1.0 = c1 and ?c2.0 = c2, OF assms(2,3)])

lemma render_all_colors:
  assumes "c1 ''accent'' = c2 ''accent''" and "c1 ''label_bg'' = c2 ''label_bg''"
    and "c1 ''label_text'' = c2 ''label_text''"
  shows "render_all e ext c1 sizes images = render_all e ext c2 sizes images"
proof (induction sizes arbitrary: images)
  case Nil
  show ?case by simp
next
  case (Cons s sizes)
  show ?case
    by (simp add: render_size_colors [where ?c1.0 = c1 and ?c2.0 = c2, OF assms] Cons.IH)
qed

text \<open>
  C9. Two colour schemes that agree on every key but \<^verbatim>\<open>accent_dark\<close> give the same frame
  for every size and the same icon (or the same error): no renderer reads \<^verbatim>\<open>accent_dark\<close>.
\<close>

theorem accent_dark_unused:
  assumes "\<forall>k. k \<noteq> ''accent_dark'' \<longrightarrow> c1 k = c2 k"
  shows "(\<forall>s. render_size e ext c1 s = render_size e ext c2 s) \<and>
         generate_icon e ext c1 = generate_icon e ext c2"
proof -
  have k: "c1 ''accent'' = c2 ''accent''" "c1 ''label_bg'' = c2 ''label_bg''"
    "c1 ''label_text'' = c2 ''label_text''"
    using assms by simp_all
  show ?thesis
    by (simp add: render_size_colors [where ?c1.0 = c1 and ?c2.0 = c2, OF k] generate_icon_def
        render_all_colors [where ?c1.0 = c1 and ?c2.0 = c2, OF k])
qed

theorem accent_dark_unused_witness:
  "map_of [(''accent'', (59, 130, 246) :: color), (''accent_dark'', (37, 99, 235)),
           (''label_bg'', (59, 130, 246)), (''label_text'', (255, 255, 255))] ''accent_dark''
     \<noteq> ((map_of [(''accent'', (59, 130, 246) :: color), (''accent_dark'', (37, 99, 235)),
                  (''label_bg'', (59, 130, 246)), (''label_text'', (255, 255, 255))])
           (''accent_dark'' \<mapsto> (0, 0, 0))) ''accent_dark''
   \<and> generate_icon no_fonts ''o2d''
        (map_of [(''accent'', (59, 130, 246)), (''accent_dark'', (37, 99, 235)),
                 (''label_bg'', (59, 130, 246)), (''label_text'', (255, 255, 255))]) =
      generate_icon no_fonts ''o2d''
        ((map_of [(''accent'', (59, 130, 246)), (''accent_dark'', (37, 99, 235)),
                  (''label_bg'', (59, 130, 246)), (''label_text'', (255, 255, 255))])
           (''accent_dark'' \<mapsto> (0, 0, 0)))"
proof -
  let ?m = "map_of [(''accent'', (59, 130, 246) :: color), (''accent_dark'', (37, 99, 235)),
               (''label_bg'', (59, 130, 246)), (''label_text'', (255, 255, 255))]"
  have h: "\<forall>k. k \<noteq> ''accent_dark'' \<longrightarrow> ?m k = (?m(''accent_dark'' \<mapsto> (0, 0, 0))) k"
    by simp
  have d: "?m ''accent_dark'' \<noteq> (?m(''accent_dark'' \<mapsto> (0, 0, 0))) ''accent_dark''"
    by simp
  have "generate_icon no_fonts ''o2d'' ?m =
      generate_icon no_fonts ''o2d'' (?m(''accent_dark'' \<mapsto> (0, 0, 0)))"
    using accent_dark_unused [where ?c1.0 = ?m and ?c2.0 = "?m(''accent_dark'' \<mapsto> (0, 0, 0))"
        and e = no_fonts and ext = "''o2d''", OF h]
    by (rule conjunct2)
  with d show ?thesis by (rule conjI)
qed

subsection \<open>Fonts\<close>

text \<open>
  C8. The label renderer tries \<^verbatim>\<open>arialbd.ttf\<close>, then \<^verbatim>\<open>arial.ttf\<close>, then the built-in
  font; whatever fonts the platform has, the label is drawn and the text is the last
  operation, with the first font of that list that resolves. (The sizes and page bounds
  are those for which the arithmetic of the label does not overflow, and the colour scheme
  has the two label keys.)
\<close>

theorem label_font_fallback:
  assumes "\<bar>s\<bar> < 2 ^ 900" and "\<bar>pl + pr\<bar> < 2 ^ 1000" and "\<bar>pb\<bar> < 2 ^ 900"
    and "colors ''label_bg'' = Some bg" and "colors ''label_text'' = Some fg"
  shows "\<exists>lh fs bar pos.
     label_height s = Inr lh \<and> font_size lh = Inr fs \<and>
     draw_extension_label e d t pl pr pb s colors =
       Inr (d @ [bar, Text pos t (Some fg) (resolve_font e fs)]) \<and>
     (\<forall>f. truetype e ''arialbd.ttf'' fs = Some f \<longrightarrow> resolve_font e fs = f) \<and>
     (\<forall>f. truetype e ''arialbd.ttf'' fs = None \<and> truetype e ''arial.ttf'' fs = Some f \<longrightarrow>
          resolve_font e fs = f) \<and>
     (truetype e ''arialbd.ttf'' fs = None \<and> truetype e ''arial.ttf'' fs = None \<longrightarrow>
          resolve_font e fs = load_default e)"
proof -
  obtain lh lm fs pos where
    "label_height s = Inr lh" "font_size lh = Inr fs"
    "draw_extension_label e d t pl pr pb s colors =
       Inr (d @
         [Rectangle (of_int (pl + lm), of_int (pb - lh), of_int (pr - lm), of_int (pb - lm))
            (Some bg) None None,
          Text pos t (Some fg) (resolve_font e fs)])"
    using draw_extension_label_ok [where colors = colors and bg = bg and fg = fg and e = e
        and d = d and t = t, OF assms]
    by blast
  moreover have "\<forall>f. truetype e ''arialbd.ttf'' fs = Some f \<longrightarrow> resolve_font e fs = f"
    by (simp add: resolve_font_def)
  moreover have "\<forall>f. truetype e ''arialbd.ttf'' fs = None \<and> truetype e ''arial.ttf'' fs = Some f \<longrightarrow>
          resolve_font e fs = f"
    by (simp add: resolve_font_def)
  moreover have "truetype e ''arialbd.ttf'' fs = None \<and> truetype e ''arial.ttf'' fs = None \<longrightarrow>
          resolve_font e fs = load_default e"
    by (simp add: resolve_font_def)
  ultimately show ?thesis by blast
qed

theorem label_font_fallback_witness:
  "\<bar>16 :: int\<bar> < 2 ^ 900 \<and> \<bar>1 + 14 :: int\<bar> < 2 ^ 1000 \<and> \<bar>14 :: int\<bar> < 2 ^ 900 \<and>
   map_of [(''label_bg'', (59, 130, 246) :: color), (''label_text'', (255, 255, 255))] ''label_bg''
     = Some (59, 130, 246) \<and>
   map_of [(''label_bg'', (59, 130, 246) :: color), (''label_text'', (255, 255, 255))] ''label_text''
     = Some (255, 255, 255) \<and>
   (\<exists>bar pos.
      draw_extension_label no_fonts [] ''O2D'' 1 14 14 16
        (map_of [(''label_bg'', (59, 130, 246)), (''label_text'', (255, 255, 255))]) =
      Inr [bar, Text pos ''O2D'' (Some (255, 255, 255)) DefaultFont])"
proof -
  let ?c = "map_of [(''label_bg'', (59, 130, 246) :: color), (''label_text'', (255, 255, 255))]"
  have h: "\<bar>16 :: int\<bar> < 2 ^ 900" "\<bar>1 + 14 :: int\<bar> < 2 ^ 1000" "\<bar>14 :: int\<bar> < 2 ^ 900"
    "?c ''label_bg'' = Some (59, 130, 246)" "?c ''label_text'' = Some (255, 255, 255)"
    by simp_all
  have n: "truetype no_fonts name k = None" "load_default no_fonts = DefaultFont" for name k
    by (simp_all add: no_fonts_def)
  from label_font_fallback [where colors = ?c and e = no_fonts and d = "[]" and t = "''O2D''",
      OF h]
  have "\<exists>bar pos.
      draw_extension_label no_fonts [] ''O2D'' 1 14 14 16 ?c =
      Inr [bar, Text pos ''O2D'' (Some (255, 255, 255)) DefaultFont]"
    by (auto simp: n)
  with h show ?thesis by blast
qed

section \<open>Icons and their frames\<close>

lemma texts_append: "texts (a @ b) = texts a @ texts b"
  by (induction a rule: texts.induct) simp_all

lemma COLORS_keys:
  assumes "(ext, colors) \<in> set COLORS"
  shows "\<exists>a bg fg. map_of colors ''accent'' = Some a \<and> map_of colors ''label_bg'' = Some bg \<and>
           map_of colors ''label_text'' = Some fg"
  using assms by (auto simp: COLORS_def)

lemma render_size_shapes:
  assumes s: "0 \<le> s" "s < 2 ^ 31"
    and c: "colors ''accent'' = Some a" "colors ''label_bg'' = Some bg"
           "colors ''label_text'' = Some fg"
  shows "\<exists>page pl pt pr pb f acc logo lab tp bt cy cx ls.
     draw_document_page [] s (dec 22 100) = Inr (page, pl, pt, pr, pb, f) \<and>
     draw_accent_bar [] pl pt f s colors = Inr acc \<and>
     logo_area pl pt pr pb f s = Inr (tp, bt, cy, cx, ls) \<and>
     draw_app_logo [] cx cy ls = Inr logo \<and>
     draw_extension_label e [] (if s \<le> 16 then upper ext else ''.'' @ upper ext) pl pr pb s colors =
       Inr lab \<and>
     render_size e ext colors s =
       Inr \<lparr>img_mode = ''RGBA'', img_size = (s, s), img_color = (0, 0, 0, 0),
            img_draw = page @ (if 32 \<le> s then acc @ logo else []) @ lab\<rparr> \<and>
     map summary page =
       (if 32 \<le> s then [(PolygonShape, Some (180, 180, 180), None)] else []) @
       [(PolygonShape, Some (255, 255, 255), Some (200, 200, 200)),
        (PolygonShape, Some (230, 230, 235), Some (200, 200, 200))] \<and>
     map summary acc = [(RectangleShape, Some a, None)] \<and>
     map summary logo =
       [(RoundedRectangleShape, Some LOGO_BG, None),
        (RectangleShape, None, Some LOGO_SQUARE),
        (EllipseShape, None, Some LOGO_CIRCLE),
        (LineShape, Some LOGO_LINE, None),
        (EllipseShape, Some LOGO_DOT, None),
        (EllipseShape, Some LOGO_DOT, None)] \<and>
     map summary lab = [(RectangleShape, Some bg, None), (TextShape, Some fg, None)] \<and>
     texts page = [] \<and> texts acc = [] \<and> texts logo = [] \<and>
     texts lab = [if s \<le> 16 then upper ext else ''.'' @ upper ext]"
proof -
  define ltext where "ltext = (if s \<le> 16 then upper ext else ''.'' @ upper ext)"
  obtain page pl pt pr pb f acc logo lab tp bt cy cx ls where
    pg: "draw_document_page [] s (dec 22 100) = Inr (page, pl, pt, pr, pb, f)" and
    ac: "draw_accent_bar [] pl pt f s colors = Inr acc" and
    la: "logo_area pl pt pr pb f s = Inr (tp, bt, cy, cx, ls)" and
    lg: "draw_app_logo [] cx cy ls = Inr logo" and
    lb: "draw_extension_label e [] ltext pl pr pb s colors = Inr lab" and
    rs: "render_size e ext colors s =
       Inr \<lparr>img_mode = ''RGBA'', img_size = (s, s), img_color = (0, 0, 0, 0),
            img_draw = page @ (if 32 \<le> s then acc @ logo else []) @ lab\<rparr>"
    using render_size_parts [where colors = colors and a = a and bg = bg and fg = fg
        and e = e and ext = ext, OF s c]
    unfolding ltext_def by blast
  define m where "m = max 1 (8 * s div 100)"
  define f0 where "f0 = max 2 (22 * s div 100)"
  define r where "r = s - m - 1"
  define tp0 where "tp0 = m + f0 + max 1 (4 * s div 100)"
  define bt0 where "bt0 = r - max 4 (20 * s div 100)"
  define ls0 where "ls0 = min (fmul (of_int (r - m)) (dec 55 100))
                            (fmul (of_int (bt0 - tp0)) (dec 85 100))"
  have "\<exists>p1 p2 p3. draw_document_page [] s (dec 22 100) =
      Inr ([] @ (if 32 \<le> s then [Polygon p1 (Some (180, 180, 180)) None] else []) @
             [Polygon p2 (Some (255, 255, 255)) (Some (200, 200, 200)),
              Polygon p3 (Some (230, 230, 235)) (Some (200, 200, 200))],
           m, m, r, r, f0)"
    unfolding r_def m_def f0_def
    by (rule exI)+ (rule draw_document_page_exact [OF s, of "[]", unfolded Let_def])
  then obtain p1 p2 p3 where pe: "draw_document_page [] s (dec 22 100) =
      Inr ([] @ (if 32 \<le> s then [Polygon p1 (Some (180, 180, 180)) None] else []) @
             [Polygon p2 (Some (255, 255, 255)) (Some (200, 200, 200)),
              Polygon p3 (Some (230, 230, 235)) (Some (200, 200, 200))],
           m, m, r, r, f0)"
    by blast
  have geo: "pl = m" "pt = m" "pr = r" "pb = r" "f = f0"
    and page: "page = (if 32 \<le> s then [Polygon p1 (Some (180, 180, 180)) None] else []) @
             [Polygon p2 (Some (255, 255, 255)) (Some (200, 200, 200)),
              Polygon p3 (Some (230, 230, 235)) (Some (200, 200, 200))]"
    using pg pe by simp_all
  have "0 \<le> 8 * s div 100" "8 * s div 100 < 2 ^ 31"
    using s by simp_all
  then have mb: "1 \<le> m" "m \<le> 2 ^ 31"
    unfolding m_def by simp_all
  have rb: "\<bar>r\<bar> \<le> 2 ^ 32"
    using mb s unfolding r_def by simp
  have sp: "map summary page =
       (if 32 \<le> s then [(PolygonShape, Some (180, 180, 180), None)] else []) @
       [(PolygonShape, Some (255, 255, 255), Some (200, 200, 200)),
        (PolygonShape, Some (230, 230, 235), Some (200, 200, 200))]"
    and tpg: "texts page = []"
    by (simp_all add: page)
  have "\<bar>m\<bar> < 2 ^ 53" using mb by simp
  then have pl53: "\<bar>pl\<bar> < 2 ^ 53" by (simp only: geo)
  obtain B where "draw_accent_bar [] pl pt f s colors = Inr [Rectangle B (Some a) None None]"
    using draw_accent_bar_exact [where colors = colors and a = a and d = "[]" and pt = pt
        and fd = f, OF s pl53 c(1)]
    by simp
  with ac have acc: "acc = [Rectangle B (Some a) None None]" by simp
  have sa: "map summary acc = [(RectangleShape, Some a, None)]" and ta: "texts acc = []"
    by (simp_all add: acc)
  have l2: "logo_area m m r r f0 s =
      Inr (tp0, bt0, of_int (tp0 + bt0) / 2, of_int (m + r) / 2, ls0)"
    using page_logo_area(2) [OF s] unfolding m_def f0_def r_def tp0_def bt0_def ls0_def .
  have l3: "\<bar>ls0\<bar> \<le> 2 ^ 36"
    using page_logo_area(3) [OF s] unfolding m_def f0_def r_def tp0_def bt0_def ls0_def .
  have "ls = ls0"
    using la l2 unfolding geo by simp
  with l3 have "\<bar>ls\<bar> \<le> 2 ^ 36" by simp
  also have "(2::rat) ^ 36 < 2 ^ 900" by simp
  finally have lsb: "\<bar>ls\<bar> < 2 ^ 900" .
  obtain b1 r1 b2 w2 b3 w3 p w4 b4 b5 where
    "draw_app_logo [] cx cy ls =
       Inr ([] @
         [RoundedRectangle b1 r1 (Some LOGO_BG),
          Rectangle b2 None (Some LOGO_SQUARE) (Some w2),
          Ellipse b3 None (Some LOGO_CIRCLE) (Some w3),
          Line p (Some LOGO_LINE) (Some w4),
          Ellipse b4 (Some LOGO_DOT) None None,
          Ellipse b5 (Some LOGO_DOT) None None])"
    using draw_app_logo_ok [OF lsb, of "[]" cx cy] by blast
  with lg have logo: "logo =
         [RoundedRectangle b1 r1 (Some LOGO_BG),
          Rectangle b2 None (Some LOGO_SQUARE) (Some w2),
          Ellipse b3 None (Some LOGO_CIRCLE) (Some w3),
          Line p (Some LOGO_LINE) (Some w4),
          Ellipse b4 (Some LOGO_DOT) None None,
          Ellipse b5 (Some LOGO_DOT) None None]"
    by simp
  have sl: "map summary logo =
       [(RoundedRectangleShape, Some LOGO_BG, None),
        (RectangleShape, None, Some LOGO_SQUARE),
        (EllipseShape, None, Some LOGO_CIRCLE),
        (LineShape, Some LOGO_LINE, None),
        (EllipseShape, Some LOGO_DOT, None),
        (EllipseShape, Some LOGO_DOT, None)]"
    and tl: "texts logo = []"
    by (simp_all add: logo)
  have s9: "\<bar>s\<bar> < 2 ^ 900" using s by simp
  have "\<bar>m + r\<bar> < 2 ^ 1000" using mb rb by simp
  then have p1: "\<bar>pl + pr\<bar> < 2 ^ 1000" by (simp only: geo)
  have "\<bar>r\<bar> < 2 ^ 900" using rb by simp
  then have p2: "\<bar>pb\<bar> < 2 ^ 900" by (simp only: geo)
  obtain bx pos fnt where
    "draw_extension_label e [] ltext pl pr pb s colors =
       Inr ([] @ [Rectangle bx (Some bg) None None, Text pos ltext (Some fg) fnt])"
    using draw_extension_label_ok [where colors = colors and bg = bg and fg = fg and e = e
        and d = "[]" and t = ltext, OF s9 p1 p2 c(2,3)]
    by blast
  with lb have lab: "lab = [Rectangle bx (Some bg) None None, Text pos ltext (Some fg) fnt]"
    by simp
  have sb: "map summary lab = [(RectangleShape, Some bg, None), (TextShape, Some fg, None)]"
    and tb: "texts lab = [ltext]"
    by (simp_all add: lab)
  show ?thesis
    unfolding ltext_def [symmetric]
    apply (rule exI [of _ page], rule exI [of _ pl], rule exI [of _ pt], rule exI [of _ pr],
        rule exI [of _ pb], rule exI [of _ f], rule exI [of _ acc], rule exI [of _ logo],
        rule exI [of _ lab], rule exI [of _ tp], rule exI [of _ bt], rule exI [of _ cy],
        rule exI [of _ cx], rule exI [of _ ls])
    apply (intro conjI pg ac la lg lb rs sp sa sl sb tpg ta tl tb)
    done
qed

lemma render_size_frame:
  assumes s: "0 \<le> s" "s < 2 ^ 31"
    and c: "colors ''accent'' = Some a" "colors ''label_bg'' = Some bg"
           "colors ''label_text'' = Some fg"
  shows "\<exists>img. render_size e ext colors s = Inr img \<and>
     img_mode img = ''RGBA'' \<and> img_size img = (s, s) \<and> img_color img = (0, 0, 0, 0) \<and>
     map summary (img_draw img) =
       (if 32 \<le> s then [(PolygonShape, Some (180, 180, 180), None)] else []) @
       [(PolygonShape, Some (255, 255, 255), Some (200, 200, 200)),
        (PolygonShape, Some (230, 230, 235), Some (200, 200, 200))] @
       (if 32 \<le> s
        then [(RectangleShape, Some a, None),
              (RoundedRectangleShape, Some LOGO_BG, None),
              (RectangleShape, None, Some LOGO_SQUARE),
              (EllipseShape, None, Some LOGO_CIRCLE),
              (LineShape, Some LOGO_LINE, None),
              (EllipseShape, Some LOGO_DOT, None),
              (EllipseShape, Some LOGO_DOT, None)]
        else []) @
       [(RectangleShape, Some bg, None), (TextShape, Some fg, None)] \<and>
     texts (img_draw img) = [if s \<le> 16 then upper ext else ''.'' @ upper ext]"
  using render_size_shapes [where colors = colors and a = a and bg = bg and fg = fg
      and e = e and ext = ext, OF s c]
  apply (elim exE conjE)
  subgoal for page pl pt pr pb f acc logo lab tp bt cy cx ls
    apply (rule exI [of _ "\<lparr>img_mode = ''RGBA'', img_size = (s, s), img_color = (0, 0, 0, 0),
            img_draw = page @ (if 32 \<le> s then acc @ logo else []) @ lab\<rparr>"])
    apply (simp add: texts_append)
    done
  done





text \<open>
  C4: the frame of the 16-pixel canvas holds the page, its folded corner and the label
  (the bar and the text) and nothing else: no shadow polygon, no accent bar, no logo. Every
  frame of a canvas of 32 pixels or more holds the shadow, the page and its corner, the
  accent bar, the six shapes of the logo and the label, in this order. Every size of
  \<open>ICO_SIZES\<close> is one or the other.
\<close>

theorem fidelity_cutoff:
  assumes "(ext, colors) \<in> set COLORS" and "s \<in> set ICO_SIZES"
  shows "\<exists>img a bg fg.
     map_of colors ''accent'' = Some a \<and> map_of colors ''label_bg'' = Some bg \<and>
     map_of colors ''label_text'' = Some fg \<and>
     render_size e ext (map_of colors) s = Inr img \<and>
     (s = 16 \<or> 32 \<le> s) \<and>
     (s = 16 \<longrightarrow> map summary (img_draw img) =
        [(PolygonShape, Some (255, 255, 255), Some (200, 200, 200)),
         (PolygonShape, Some (230, 230, 235), Some (200, 200, 200)),
         (RectangleShape, Some bg, None),
         (TextShape, Some fg, None)]) \<and>
     (32 \<le> s \<longrightarrow> map summary (img_draw img) =
        [(PolygonShape, Some (180, 180, 180), None),
         (PolygonShape, Some (255, 255, 255), Some (200, 200, 200)),
         (PolygonShape, Some (230, 230, 235), Some (200, 200, 200)),
         (RectangleShape, Some a, None),
         (RoundedRectangleShape, Some LOGO_BG, None),
         (RectangleShape, None, Some LOGO_SQUARE),
         (EllipseShape, None, Some LOGO_CIRCLE),
         (LineShape, Some LOGO_LINE, None),
         (EllipseShape, Some LOGO_DOT, None),
         (EllipseShape, Some LOGO_DOT, None),
         (RectangleShape, Some bg, None),
         (TextShape, Some fg, None)])"
proof -
  obtain a bg fg where c: "map_of colors ''accent'' = Some a"
      "map_of colors ''label_bg'' = Some bg" "map_of colors ''label_text'' = Some fg"
    using COLORS_keys [OF assms(1)] by blast
  have s: "0 \<le> s" "s < 2 ^ 31"
    using ICO_SIZES_small [OF assms(2)] by simp_all
  have d: "s = 16 \<or> 32 \<le> s"
    using assms(2) by (auto simp: ICO_SIZES_def)
  show ?thesis
    using render_size_frame [where colors = "map_of colors" and a = a and bg = bg and fg = fg
        and e = e and ext = ext, OF s c]
    apply (elim exE conjE)
    subgoal for img
      apply (rule exI [of _ img], rule exI [of _ a], rule exI [of _ bg], rule exI [of _ fg])
      apply (simp add: c d)
      done
    done
qed

theorem fidelity_cutoff_witness:
  "(\<exists>img. render_size no_fonts ''o2d''
      (map_of [(''accent'', (59, 130, 246) :: color), (''accent_dark'', (37, 99, 235)),
              (''label_bg'', (59, 130, 246)), (''label_text'', (255, 255, 255))]) 16 = Inr img \<and>
      map summary (img_draw img) =
        [(PolygonShape, Some (255, 255, 255), Some (200, 200, 200)),
         (PolygonShape, Some (230, 230, 235), Some (200, 200, 200)),
         (RectangleShape, Some (59, 130, 246), None),
         (TextShape, Some (255, 255, 255), None)]) \<and>
   (\<exists>img. render_size no_fonts ''o2d''
       (map_of [(''accent'', (59, 130, 246) :: color), (''accent_dark'', (37, 99, 235)),
              (''label_bg'', (59, 130, 246)), (''label_text'', (255, 255, 255))]) 32 = Inr img \<and>
      map summary (img_draw img) =
        [(PolygonShape, Some (180, 180, 180), None),
         (PolygonShape, Some (255, 255, 255), Some (200, 200, 200)),
         (PolygonShape, Some (230, 230, 235), Some (200, 200, 200)),
         (RectangleShape, Some (59, 130, 246), None),
         (RoundedRectangleShape, Some LOGO_BG, None),
         (RectangleShape, None, Some LOGO_SQUARE),
         (EllipseShape, None, Some LOGO_CIRCLE),
         (LineShape, Some LOGO_LINE, None),
         (EllipseShape, Some LOGO_DOT, None),
         (EllipseShape, Some LOGO_DOT, None),
         (RectangleShape, Some (59, 130, 246), None),
         (TextShape, Some (255, 255, 255), None)])"
  using fidelity_cutoff [of "''o2d''"
      "[(''accent'', (59, 130, 246) :: color), (''accent_dark'', (37, 99, 235)),
              (''label_bg'', (59, 130, 246)), (''label_text'', (255, 255, 255))]" 16 no_fonts]
    fidelity_cutoff [of "''o2d''"
        "[(''accent'', (59, 130, 246) :: color), (''accent_dark'', (37, 99, 235)),
              (''label_bg'', (59, 130, 246)), (''label_text'', (255, 255, 255))]" 32 no_fonts]
  by (simp add: COLORS_def ICO_SIZES_def)

text \<open>
  C5: for every configured file type and every size of \<open>ICO_SIZES\<close>, the frame holds exactly
  one text, and it is the extension in upper case, after a dot when the canvas is larger
  than 16 pixels and bare on the 16-pixel canvas; the configured extensions in upper
  case are O2D and DXF.
\<close>

theorem label_text_by_size:
  assumes "(ext, colors) \<in> set COLORS" and "s \<in> set ICO_SIZES"
  shows "\<exists>img. render_size e ext (map_of colors) s = Inr img \<and>
     (s = 16 \<or> 16 < s) \<and>
     (16 < s \<longrightarrow> texts (img_draw img) = [''.'' @ upper ext]) \<and>
     (s = 16 \<longrightarrow> texts (img_draw img) = [upper ext]) \<and>
     map (\<lambda>(ext, colors). upper ext) COLORS = [''O2D'', ''DXF'']"
proof -
  obtain a bg fg where c: "map_of colors ''accent'' = Some a"
      "map_of colors ''label_bg'' = Some bg" "map_of colors ''label_text'' = Some fg"
    using COLORS_keys [OF assms(1)] by blast
  have s: "0 \<le> s" "s < 2 ^ 31"
    using ICO_SIZES_small [OF assms(2)] by simp_all
  have d: "s = 16 \<or> 16 < s"
    using assms(2) by (auto simp: ICO_SIZES_def)
  have u: "map (\<lambda>(ext, colors). upper ext) COLORS = [''O2D'', ''DXF'']"
    by (simp add: COLORS_def upper_o2d upper_dxf)
  show ?thesis
    using render_size_frame [where colors = "map_of colors" and a = a and bg = bg and fg = fg
        and e = e and ext = ext, OF s c]
    apply (elim exE conjE)
    subgoal for img
      apply (rule exI [of _ img])
      apply (simp add: d u)
      done
    done
qed

theorem label_text_by_size_witness:
  "(\<exists>img. render_size no_fonts ''o2d''
      (map_of [(''accent'', (59, 130, 246) :: color), (''accent_dark'', (37, 99, 235)),
              (''label_bg'', (59, 130, 246)), (''label_text'', (255, 255, 255))]) 16 = Inr img \<and>
      texts (img_draw img) = [''O2D'']) \<and>
   (\<exists>img. render_size no_fonts ''dxf''
       (map_of [(''accent'', (34, 197, 94) :: color), (''accent_dark'', (22, 163, 74)),
              (''label_bg'', (34, 197, 94)), (''label_text'', (255, 255, 255))]) 48 = Inr img \<and>
      texts (img_draw img) = [''.DXF''])"
  using label_text_by_size [of "''o2d''"
      "[(''accent'', (59, 130, 246) :: color), (''accent_dark'', (37, 99, 235)),
              (''label_bg'', (59, 130, 246)), (''label_text'', (255, 255, 255))]" 16 no_fonts]
    label_text_by_size [of "''dxf''"
        "[(''accent'', (34, 197, 94) :: color), (''accent_dark'', (22, 163, 74)),
              (''label_bg'', (34, 197, 94)), (''label_text'', (255, 255, 255))]" 48 no_fonts]
  by (simp add: COLORS_def ICO_SIZES_def upper_o2d upper_dxf)



end
